theory Spec2Isabelle
  imports Complex_Main "HOL-Library.Sublist"
begin

section \<open>Shared data: configuration, files, tables\<close>

text \<open>
  The constants of \<^verbatim>\<open>config/config\<close> (\<^verbatim>\<open>MIME_TYPES\<close>, \<^verbatim>\<open>VISUALIZER_BASE_URI\<close>,
  \<^verbatim>\<open>DRIVE_ARCHIVE_INDEX_SHEET\<close>, \<^verbatim>\<open>RETRY_OPTIONS.retries\<close>) are parameters of the
  model, collected in one record. The OAuth client that every call passes on is an opaque
  credential and is left out.
\<close>

record config =
  MIME_csv :: string
  MIME_spreadsheet :: string
  VISUALIZER_BASE_URI :: string
  DRIVE_ARCHIVE_INDEX_SHEET :: string
  RETRY_retries :: nat

record IFile =
  file_id :: string
  file_name :: string
  mimeType :: string

record ITable =
  table_id :: string
  table_name :: string
  permissions :: "string list"

record ISheet =
  spreadsheetId :: string
  sheetId :: int

section \<open>Index-sheet rows (\<^verbatim>\<open>log-file-export-in-index-sheet.ts\<close>)\<close>

text \<open>A cell is the \<^verbatim>\<open>userEnteredValue\<close> of the request; a row is its \<^verbatim>\<open>values\<close> array.\<close>

datatype cell_value = StringValue string | FormulaValue string

type_synonym row = "cell_value list"

record 'style ILogFileOptions =
  opt_sheet :: ISheet
  opt_table :: ITable
  opt_driveFile :: IFile
  opt_styles :: "'style list"
  opt_hasGeometryData :: bool
  opt_isLarge :: bool

text \<open>Decimal rendering of a non-negative integer inside a template literal.\<close>

fun string_of_nat :: "nat \<Rightarrow> string" where
  "string_of_nat n =
     (if n < 10 then [char_of (48 + n)]
      else string_of_nat (n div 10) @ [char_of (48 + n mod 10)])"

declare string_of_nat.simps [simp del]

definition dquote :: string where
  "dquote = [CHR 0x22]"

text \<open>The em dash of the message is written as its three UTF-8 bytes.\<close>

definition no_geometry_message :: string where
  "no_geometry_message =
     ''Cannot visualize '' @ [CHR 0xE2, CHR 0x80, CHR 0x94] @ '' no geometry found.''"

definition tableLink :: "ITable \<Rightarrow> string" where
  "tableLink t = ''https://fusiontables.google.com/DataSource?docid='' @ table_id t"

definition fileLink :: "IFile \<Rightarrow> string" where
  "fileLink f = ''https://drive.google.com/open?id='' @ file_id f"

definition fileType :: "config \<Rightarrow> IFile \<Rightarrow> string" where
  "fileType cfg f = (if mimeType f = MIME_csv cfg then ''CSV'' else ''Spreadsheet'')"

definition visualizerBaseLink :: "config \<Rightarrow> IFile \<Rightarrow> string" where
  "visualizerBaseLink cfg f = VISUALIZER_BASE_URI cfg @ ''#file='' @ file_id f"

definition hyperlink :: "string \<Rightarrow> string \<Rightarrow> string" where
  "hyperlink visualizerLink visualizationId =
     ''=HYPERLINK('' @ dquote @ visualizerLink @ dquote @ '','' @
     '' '' @ dquote @ ''Visualization '' @ visualizationId @ dquote @ '')''"

text \<open>
  \<^verbatim>\<open>createRow\<close> closes over the file, the table, the configuration and the export date;
  they are its first arguments here. Both of its own arguments are optional: an absent link
  and the empty string are falsy alike.
\<close>

definition createRow ::
  "config \<Rightarrow> ITable \<Rightarrow> IFile \<Rightarrow> string \<Rightarrow> string option \<Rightarrow> nat option \<Rightarrow> row" where
  "createRow cfg t f exportDate visualizerLink index =
     (let isFirstRow = (index = Some 0 \<or> index = None);
          visualizationId = (case index of Some i \<Rightarrow> string_of_nat (i + 1) | None \<Rightarrow> '''');
          visualizationValue =
            (case visualizerLink of
               None \<Rightarrow> StringValue no_geometry_message
             | Some l \<Rightarrow>
                 if l = '''' then StringValue no_geometry_message
                 else FormulaValue (hyperlink l visualizationId))
      in [StringValue (file_name f),
          StringValue (if isFirstRow then tableLink t else ''''),
          StringValue (if isFirstRow then fileLink f else ''''),
          StringValue (if isFirstRow then fileType cfg f else ''''),
          visualizationValue,
          StringValue exportDate])"

definition large_suffix :: "bool \<Rightarrow> string" where
  "large_suffix isLarge = (if isLarge then ''&large=true'' else '''')"

definition styleLink :: "config \<Rightarrow> ('style \<Rightarrow> string) \<Rightarrow> IFile \<Rightarrow> bool \<Rightarrow> 'style \<Rightarrow> string" where
  "styleLink cfg getStyleHash f isLarge style =
     visualizerBaseLink cfg f @ ''&style='' @ getStyleHash style @ large_suffix isLarge"

text \<open>
  The rows that \<^verbatim>\<open>logFileExportInIndexSheetWorker\<close> builds before it sends them.
  \<^verbatim>\<open>getStyleHash\<close> (\<^verbatim>\<open>lib/get-style-hash\<close>) and the export date (the clock) are
  parameters.
\<close>

definition index_rows ::
  "config \<Rightarrow> ('style \<Rightarrow> string) \<Rightarrow> string \<Rightarrow> 'style ILogFileOptions \<Rightarrow> row list" where
  "index_rows cfg getStyleHash exportDate options =
     (let t = opt_table options; f = opt_driveFile options;
          styles = opt_styles options; isLarge = opt_isLarge options
      in if \<not> opt_hasGeometryData options then
           [createRow cfg t f exportDate None None]
         else if length styles > 0 then
           map (\<lambda>(index, style).
                  createRow cfg t f exportDate
                    (Some (styleLink cfg getStyleHash f isLarge style))
                    (if length styles > 1 then Some index else None))
               (enumerate 0 styles)
         else
           [createRow cfg t f exportDate
              (Some (visualizerBaseLink cfg f @ large_suffix isLarge)) None])"

text \<open>The visualization cell is the fifth of the six cells of a row.\<close>

definition visualization_cell :: "row \<Rightarrow> cell_value" where
  "visualization_cell r = r ! 4"

section \<open>Numbers of the size classification (\<^verbatim>\<open>saveTable\<close>)\<close>

text \<open>
  A JavaScript number is modelled as a real number or one of the three special values.
  Arithmetic on finite values is exact: the rounding of IEEE doubles is not modelled.
  The special values are written out, because \<^verbatim>\<open>Math.log(0)\<close> is \<^verbatim>\<open>-Infinity\<close> in
  the program while \<^term>\<open>ln (0::real)\<close> is an unspecified real in HOL. Zero has no sign here:
  a non-zero number divided by zero takes the sign of the dividend.
\<close>

datatype number = Number real | Infinity | NegInfinity | NaN

definition Math_log :: "number \<Rightarrow> number" where
  "Math_log x =
     (case x of
        Number r \<Rightarrow> if r < 0 then NaN else if r = 0 then NegInfinity else Number (ln r)
      | Infinity \<Rightarrow> Infinity
      | NegInfinity \<Rightarrow> NaN
      | NaN \<Rightarrow> NaN)"

fun js_divide :: "number \<Rightarrow> number \<Rightarrow> number" where
  "js_divide (Number a) (Number b) =
     (if b = 0 then (if a = 0 then NaN else if 0 < a then Infinity else NegInfinity)
      else Number (a / b))"
| "js_divide (Number a) Infinity = Number 0"
| "js_divide (Number a) NegInfinity = Number 0"
| "js_divide Infinity (Number b) = (if b < 0 then NegInfinity else Infinity)"
| "js_divide NegInfinity (Number b) = (if b < 0 then Infinity else NegInfinity)"
| "js_divide _ _ = NaN"

definition Math_floor :: "number \<Rightarrow> number" where
  "Math_floor x = (case x of Number r \<Rightarrow> Number (of_int \<lfloor>r\<rfloor>) | y \<Rightarrow> y)"

text \<open>\<^verbatim>\<open>Math.pow(2, y)\<close>: the only base the program uses.\<close>

definition Math_pow2 :: "number \<Rightarrow> number" where
  "Math_pow2 y =
     (case y of
        Number e \<Rightarrow> Number (2 powr e)
      | Infinity \<Rightarrow> Infinity
      | NegInfinity \<Rightarrow> Number 0
      | NaN \<Rightarrow> NaN)"

definition js_greater :: "number \<Rightarrow> number \<Rightarrow> bool" where
  "js_greater x y =
     (case (x, y) of
        (Number a, Number b) \<Rightarrow> b < a
      | (Infinity, Number b) \<Rightarrow> True
      | (Infinity, NegInfinity) \<Rightarrow> True
      | (Number a, NegInfinity) \<Rightarrow> True
      | _ \<Rightarrow> False)"

text \<open>\<^verbatim>\<open>Buffer.byteLength(csv.data, 'utf8') / 1024 / 1024\<close>, from the byte length.\<close>

definition fileSize_of :: "nat \<Rightarrow> number" where
  "fileSize_of byteLength = Number (real byteLength / 1024 / 1024)"

definition roundedFileSize_of :: "number \<Rightarrow> number" where
  "roundedFileSize_of fileSize =
     Math_pow2 (Math_floor (js_divide (Math_log fileSize) (Math_log (Number 2))))"

definition isLarge_of :: "number \<Rightarrow> bool" where
  "isLarge_of fileSize = js_greater fileSize (Number 20)"

section \<open>The archive index sheet (\<^verbatim>\<open>get-archive-index-sheet.ts\<close>)\<close>

text \<open>
  Errors as values. \<open>GaxiosError c\<close> is an error of the API client whose
  \<^verbatim>\<open>response.data.error.code\<close> is \<open>c\<close>; \<open>PlainError m\<close> is an \<^verbatim>\<open>Error\<close> object with
  message \<open>m\<close> and no \<^verbatim>\<open>response\<close> property (what \<^verbatim>\<open>new Error(m)\<close> builds, and what a
  failure without an HTTP response looks like); \<open>TypeError\<close> is what reading a property of
  \<^verbatim>\<open>undefined\<close> raises.
\<close>

datatype js_error = GaxiosError nat | PlainError string | TypeError

record SheetProperties =
  prop_sheetId :: "int option"

record Schema_Sheet =
  sheet_properties :: "SheetProperties option"

record get_response =
  get_statusText :: string
  data_sheets :: "Schema_Sheet list option"

record create_response =
  create_statusText :: string
  data_id :: string

text \<open>
  The services behind the resolver. Each call of \<^verbatim>\<open>sheets.spreadsheets.get\<close>,
  \<^verbatim>\<open>drive.files.create\<close> and \<^verbatim>\<open>sheets.spreadsheets.batchUpdate\<close> is answered by the
  environment from the arguments and the number of earlier calls of the same operation, which
  the state counts.
\<close>

record env =
  findFile :: "string \<Rightarrow> string \<Rightarrow> js_error + string option"
  spreadsheets_get :: "string \<Rightarrow> nat \<Rightarrow> js_error + get_response"
  files_create :: "string \<Rightarrow> nat \<Rightarrow> js_error + create_response"
  spreadsheets_batchUpdate :: "string \<Rightarrow> nat \<Rightarrow> js_error + unit"

record calls =
  n_get :: nat
  n_create :: nat
  n_batchUpdate :: nat

definition legacy_conflict_message :: "config \<Rightarrow> string" where
  "legacy_conflict_message cfg =
     ''The file '' @ dquote @ DRIVE_ARCHIVE_INDEX_SHEET cfg @ dquote @
     '' was created by a deprecated '' @
     ''version of the exporter. Please rename or remove it to allow the '' @
     ''application to create a new one.''"

definition cannot_find_sheet_message :: "string \<Rightarrow> string" where
  "cannot_find_sheet_message statusText = ''Cannot find Sheet in Spreadsheet: '' @ statusText"

text \<open>
  The body of the \<^verbatim>\<open>try\<close> block of \<^verbatim>\<open>getFirstSheetWorker\<close>, given the answer of the
  lookup. Indexing an absent or empty \<^verbatim>\<open>sheets\<close> array and then reading
  \<^verbatim>\<open>.properties\<close> raises; \<^verbatim>\<open>!sheetId\<close> holds for an absent id and for the id 0.
\<close>

definition getFirstSheetWorker_try :: "js_error + get_response \<Rightarrow> js_error + int" where
  "getFirstSheetWorker_try answer =
     (case answer of
        Inl e \<Rightarrow> Inl e
      | Inr response \<Rightarrow>
          (case data_sheets response of
             None \<Rightarrow> Inl TypeError
           | Some [] \<Rightarrow> Inl TypeError
           | Some (firstSheet # _) \<Rightarrow>
               (let first_id =
                      (case sheet_properties firstSheet of
                         None \<Rightarrow> None
                       | Some p \<Rightarrow> prop_sheetId p)
                in case first_id of
                     None \<Rightarrow> Inl (PlainError (cannot_find_sheet_message (get_statusText response)))
                   | Some i \<Rightarrow>
                       if i = 0 then
                         Inl (PlainError (cannot_find_sheet_message (get_statusText response)))
                       else Inr i)))"

text \<open>
  The \<^verbatim>\<open>catch\<close> block: it reads \<^verbatim>\<open>error.response.data.error.code\<close> of whatever was
  thrown in the \<^verbatim>\<open>try\<close> block, also of the errors the block raised itself.
\<close>

definition getFirstSheetWorker_catch :: "config \<Rightarrow> js_error \<Rightarrow> js_error" where
  "getFirstSheetWorker_catch cfg error =
     (case error of
        GaxiosError code \<Rightarrow>
          if code = 404 then PlainError (legacy_conflict_message cfg) else error
      | PlainError m \<Rightarrow> TypeError
      | TypeError \<Rightarrow> TypeError)"

definition getFirstSheetWorker :: "config \<Rightarrow> js_error + get_response \<Rightarrow> js_error + int" where
  "getFirstSheetWorker cfg answer =
     (case getFirstSheetWorker_try answer of
        Inr first_id \<Rightarrow> Inr first_id
      | Inl error \<Rightarrow> Inl (getFirstSheetWorker_catch cfg error))"

text \<open>
  \<^verbatim>\<open>promiseRetry(retry => worker(...).catch(retry), RETRY_OPTIONS)\<close>: every rejection of
  the worker is handed to \<^verbatim>\<open>retry\<close>, which runs the worker again while the policy has
  retries left and rejects with the last error once it has none. The first argument counts
  the retries left; the delays between attempts are not modelled.
\<close>

fun promiseRetry ::
  "nat \<Rightarrow> ('s \<Rightarrow> (js_error + 'a) \<times> 's) \<Rightarrow> 's \<Rightarrow> (js_error + 'a) \<times> 's" where
  "promiseRetry 0 fn s = fn s"
| "promiseRetry (Suc n) fn s =
     (case fn s of
        (Inr v, s') \<Rightarrow> (Inr v, s')
      | (Inl e, s') \<Rightarrow> promiseRetry n fn s')"

definition getFirstSheet_attempt ::
  "config \<Rightarrow> env \<Rightarrow> string \<Rightarrow> calls \<Rightarrow> (js_error + int) \<times> calls" where
  "getFirstSheet_attempt cfg e spreadsheet s =
     (getFirstSheetWorker cfg (spreadsheets_get e spreadsheet (n_get s)),
      s\<lparr>n_get := n_get s + 1\<rparr>)"

definition getFirstSheet ::
  "config \<Rightarrow> env \<Rightarrow> string \<Rightarrow> calls \<Rightarrow> (js_error + int) \<times> calls" where
  "getFirstSheet cfg e spreadsheet =
     promiseRetry (RETRY_retries cfg) (getFirstSheet_attempt cfg e spreadsheet)"

definition createSheetWorker ::
  "config \<Rightarrow> env \<Rightarrow> string \<Rightarrow> calls \<Rightarrow> (js_error + ISheet) \<times> calls" where
  "createSheetWorker cfg e archiveFolderId s =
     (let s1 = s\<lparr>n_create := n_create s + 1\<rparr>
      in case files_create e archiveFolderId (n_create s) of
           Inl err \<Rightarrow> (Inl err, s1)
         | Inr response \<Rightarrow>
             if create_statusText response \<noteq> ''OK'' then
               (Inl (PlainError (''Cannot create new Sheet: '' @ create_statusText response)), s1)
             else
               (case getFirstSheet cfg e (data_id response) s1 of
                  (Inl err, s2) \<Rightarrow> (Inl err, s2)
                | (Inr sheet, s2) \<Rightarrow>
                    (let s3 = s2\<lparr>n_batchUpdate := n_batchUpdate s2 + 1\<rparr>
                     in case spreadsheets_batchUpdate e (data_id response) (n_batchUpdate s2) of
                          Inl err \<Rightarrow> (Inl err, s3)
                        | Inr _ \<Rightarrow>
                            (Inr \<lparr>spreadsheetId = data_id response, sheetId = sheet\<rparr>, s3))))"

definition createSheet ::
  "config \<Rightarrow> env \<Rightarrow> string \<Rightarrow> calls \<Rightarrow> (js_error + ISheet) \<times> calls" where
  "createSheet cfg e archiveFolderId =
     promiseRetry (RETRY_retries cfg) (createSheetWorker cfg e archiveFolderId)"

text \<open>
  The exported function of the module. \<^verbatim>\<open>!spreadsheetId\<close> holds when no file was found
  and when the id found is the empty string.
\<close>

definition getArchiveIndexSheet ::
  "config \<Rightarrow> env \<Rightarrow> string \<Rightarrow> calls \<Rightarrow> (js_error + ISheet) \<times> calls" where
  "getArchiveIndexSheet cfg e archiveFolderId s =
     (case findFile e (DRIVE_ARCHIVE_INDEX_SHEET cfg) archiveFolderId of
        Inl err \<Rightarrow> (Inl err, s)
      | Inr found \<Rightarrow>
          (case found of
             None \<Rightarrow> createSheet cfg e archiveFolderId s
           | Some spreadsheet \<Rightarrow>
               if spreadsheet = '''' then createSheet cfg e archiveFolderId s
               else
                 (case getFirstSheet cfg e spreadsheet s of
                    (Inl err, s') \<Rightarrow> (Inl err, s')
                  | (Inr sheet, s') \<Rightarrow>
                      (Inr \<lparr>spreadsheetId = spreadsheet, sheetId = sheet\<rparr>, s'))))"

section \<open>Sending the rows (\<^verbatim>\<open>log-file-export-in-index-sheet.ts\<close>)\<close>

text \<open>
  The rest of \<^verbatim>\<open>logFileExportInIndexSheetWorker\<close>: the rows go out in one
  \<^verbatim>\<open>appendCells\<close> request, and the worker rejects when the request fails or answers
  with a status text other than \<^verbatim>\<open>OK\<close>. The result is the rows sent and the outcome.
\<close>

definition logFileExportInIndexSheetWorker ::
  "config \<Rightarrow> ('style \<Rightarrow> string) \<Rightarrow> string \<Rightarrow> 'style ILogFileOptions \<Rightarrow>
   js_error + string \<Rightarrow> row list \<times> (js_error + unit)" where
  "logFileExportInIndexSheetWorker cfg getStyleHash exportDate opts answer =
     (index_rows cfg getStyleHash exportDate opts,
      case answer of
        Inl error \<Rightarrow> Inl error
      | Inr statusText \<Rightarrow>
          if statusText \<noteq> ''OK'' then
            Inl (PlainError (''Cannot log file export: '' @ statusText))
          else Inr ())"

section \<open>The table worker (\<^verbatim>\<open>saveTable\<close>)\<close>

datatype status = status_success | status_error

text \<open>
  What \<^verbatim>\<open>getCsv\<close> resolves to: the program reads the byte length of \<^verbatim>\<open>csv.data\<close> and the
  optional flag \<^verbatim>\<open>csv.hasGeometryData\<close>.
\<close>

record ICsv =
  csv_byteLength :: nat
  csv_hasGeometryData :: "bool option"

record ISaveTableOptions =
  tableId :: nat
  table :: ITable
  ipHash :: string
  folderId :: string
  archiveSheet :: ISheet
  exportId :: string
  isLast :: bool

text \<open>
  The argument of \<^verbatim>\<open>updateTableExportProgress\<close>. The error stands for its message; the
  latency, a difference of two clock readings, is left out.
\<close>

record 'style progress_update =
  pu_exportId :: string
  pu_tableId :: string
  pu_status :: status
  pu_error :: "js_error option"
  pu_driveFile :: "IFile option"
  pu_styles :: "'style list"
  pu_isLarge :: bool
  pu_fileSize :: number
  pu_hasGeometryData :: bool

text \<open>
  The calls a run makes, in the order it makes them: the four log events, the report to the
  error tracker, and the calls of the collaborators of a worker.
\<close>

datatype 'style event =
    logExportStart string nat
  | logTableStart string nat
  | logTableFinish string nat status number
  | logExportFinish string
  | errors_report js_error
  | getCsv ITable
  | uploadToDrive string ICsv
  | getFusiontableStyles string
  | logFileExportInIndexSheet "'style ILogFileOptions"
  | addFilePermissions string "string list"
  | updateTableExportProgress "'style progress_update"

text \<open>
  What the collaborators answer to the worker of one table. \<^verbatim>\<open>Promise.all\<close> rejects with
  the reason of the promise that rejects first in time, so the environment also gives, for
  each \<^verbatim>\<open>Promise.all\<close>, the order in which its promises settle (positions in the array).
\<close>

record 'style outcome =
  res_getCsv :: "js_error + ICsv"
  res_uploadToDrive :: "js_error + IFile"
  res_getFusiontableStyles :: "js_error + 'style list"
  order_upload_styles :: "nat list"
  res_logFileExportInIndexSheet :: "js_error + unit"
  res_addFilePermissions :: "js_error + unit"
  res_updateTableExportProgress :: "status \<Rightarrow> js_error + unit"
  order_finalize :: "nat list"

definition rejection :: "js_error + 'a \<Rightarrow> js_error option" where
  "rejection r = (case r of Inl e \<Rightarrow> Some e | Inr _ \<Rightarrow> None)"

text \<open>
  The reason \<^verbatim>\<open>Promise.all\<close> rejects with, if any: the first rejection in the settle order
  (positions the order does not name settle last, in array order).
\<close>

definition first_rejection :: "nat list \<Rightarrow> js_error option list \<Rightarrow> js_error option" where
  "first_rejection order rs =
     (case List.map_filter (\<lambda>i. if i < length rs then rs ! i else None)
             (order @ [0..<length rs]) of
        [] \<Rightarrow> None
      | e # _ \<Rightarrow> Some e)"

definition Promise_all2 ::
  "nat list \<Rightarrow> js_error + 'a \<Rightarrow> js_error + 'b \<Rightarrow> js_error + ('a \<times> 'b)" where
  "Promise_all2 order a b =
     (case first_rejection order [rejection a, rejection b] of
        Some e \<Rightarrow> Inl e
      | None \<Rightarrow> Inr (projr a, projr b))"

text \<open>The await at which a started worker is suspended.\<close>

datatype pc = await_getCsv | await_upload_and_styles | await_finalize | await_error_update

record 'style worker =
  options :: ISaveTableOptions
  pc :: pc
  fileSize :: number
  roundedFileSize :: number
  isLarge :: bool
  hasGeometryData :: bool
  driveFile :: "IFile option"
  styles :: "'style list"

datatype 'style continuation = Awaiting "'style worker" | Resolved | Rejected js_error

text \<open>A worker runs from its call to its first await without interruption.\<close>

definition start :: "ISaveTableOptions \<Rightarrow> 'style event list \<times> 'style worker" where
  "start opts =
     ([logTableStart (exportId opts) (tableId opts), getCsv (table opts)],
      \<lparr>options = opts, pc = await_getCsv, fileSize = Number 0, roundedFileSize = Number 0,
       isLarge = False, hasGeometryData = False, driveFile = None, styles = []\<rparr>)"

definition progress_of :: "'style worker \<Rightarrow> status \<Rightarrow> js_error option \<Rightarrow> 'style progress_update" where
  "progress_of w st err =
     \<lparr>pu_exportId = exportId (options w), pu_tableId = table_id (table (options w)),
      pu_status = st, pu_error = err, pu_driveFile = driveFile w, pu_styles = styles w,
      pu_isLarge = isLarge w, pu_fileSize = roundedFileSize w,
      pu_hasGeometryData = hasGeometryData w\<rparr>"

text \<open>Entering the \<^verbatim>\<open>catch\<close> block, up to its await.\<close>

definition catch_block :: "js_error \<Rightarrow> 'style worker \<Rightarrow> 'style event list \<times> 'style continuation" where
  "catch_block error w =
     ([errors_report error, updateTableExportProgress (progress_of w status_error (Some error))],
      Awaiting (w\<lparr>pc := await_error_update\<rparr>))"

text \<open>The last statements of either block: the table-finished event, and the export-finished
  event when the worker carries the flag.\<close>

definition finish_events :: "status \<Rightarrow> 'style worker \<Rightarrow> 'style event list" where
  "finish_events st w =
     logTableFinish (exportId (options w)) (tableId (options w)) st (roundedFileSize w) #
     (if isLast (options w) then [logExportFinish (exportId (options w))] else [])"

text \<open>
  One continuation of a suspended worker: from the await it is suspended at, with the
  answers of the environment, to its next await or to the settlement of its promise.
\<close>

definition resume :: "'style outcome \<Rightarrow> 'style worker \<Rightarrow> 'style event list \<times> 'style continuation" where
  "resume out w =
     (case pc w of
        await_getCsv \<Rightarrow>
          (case res_getCsv out of
             Inl error \<Rightarrow> catch_block error w
           | Inr csv \<Rightarrow>
               (let size = fileSize_of (csv_byteLength csv);
                    w1 = w\<lparr>pc := await_upload_and_styles,
                           fileSize := size,
                           roundedFileSize := roundedFileSize_of size,
                           isLarge := isLarge_of size,
                           hasGeometryData :=
                             (case csv_hasGeometryData csv of Some b \<Rightarrow> b | None \<Rightarrow> False)\<rparr>
                in ([uploadToDrive (folderId (options w)) csv,
                     getFusiontableStyles (table_id (table (options w)))],
                    Awaiting w1)))
      | await_upload_and_styles \<Rightarrow>
          (case Promise_all2 (order_upload_styles out)
                  (res_uploadToDrive out) (res_getFusiontableStyles out) of
             Inl error \<Rightarrow> catch_block error w
           | Inr (file, sts) \<Rightarrow>
               (let w1 = w\<lparr>pc := await_finalize, driveFile := Some file, styles := sts\<rparr>
                in ([logFileExportInIndexSheet
                       \<lparr>opt_sheet = archiveSheet (options w), opt_table = table (options w),
                        opt_driveFile = file, opt_styles = sts,
                        opt_hasGeometryData = hasGeometryData w, opt_isLarge = isLarge w\<rparr>,
                     addFilePermissions (file_id file) (permissions (table (options w))),
                     updateTableExportProgress (progress_of w1 status_success None)],
                    Awaiting w1)))
      | await_finalize \<Rightarrow>
          (case first_rejection (order_finalize out)
                  [rejection (res_logFileExportInIndexSheet out),
                   rejection (res_addFilePermissions out),
                   rejection (res_updateTableExportProgress out status_success)] of
             Some error \<Rightarrow> catch_block error w
           | None \<Rightarrow> (finish_events status_success w, Resolved))
      | await_error_update \<Rightarrow>
          (case res_updateTableExportProgress out status_error of
             Inl error \<Rightarrow> ([], Rejected error)
           | Inr _ \<Rightarrow> (finish_events status_error w, Resolved)))"

text \<open>The awaits still ahead of a worker, at most.\<close>

fun rank :: "pc \<Rightarrow> nat" where
  "rank await_getCsv = 4"
| "rank await_upload_and_styles = 3"
| "rank await_finalize = 2"
| "rank await_error_update = 1"

lemma resume_rank:
  "resume out w = (evs, Awaiting w') \<Longrightarrow> rank (pc w') < rank (pc w)"
  by (cases "pc w")
    (auto simp: resume_def catch_block_def Let_def split: sum.splits option.splits prod.splits)

text \<open>
  The rest of a worker's run, from the await it is suspended at: the calls it still makes,
  and whether its promise resolves (\<open>True\<close>) or rejects.
\<close>

function finish_worker :: "'style outcome \<Rightarrow> 'style worker \<Rightarrow> 'style event list \<times> bool" where
  "finish_worker out w =
     (case resume out w of
        (evs, Awaiting w') \<Rightarrow> (evs @ fst (finish_worker out w'), snd (finish_worker out w'))
      | (evs, Resolved) \<Rightarrow> (evs, True)
      | (evs, Rejected e) \<Rightarrow> (evs, False))"
  by pat_completeness auto
termination
  by (relation "measure (\<lambda>(out, w). rank (pc w))") (auto intro: resume_rank [OF sym])

declare finish_worker.simps [simp del]

text \<open>All calls of the worker of one job, had it the processor to itself.\<close>

definition job_events :: "'style outcome \<Rightarrow> ISaveTableOptions \<Rightarrow> 'style event list" where
  "job_events out opts = fst (start opts) @ fst (finish_worker out (snd (start opts)))"

section \<open>The concurrency limiter and the orchestrator (\<^verbatim>\<open>doExport\<close>)\<close>

text \<open>
  \<^verbatim>\<open>pLimit(concurrency)\<close> keeps a count of the functions it has started whose promise has
  not settled, and a first-in first-out queue of those it has not started. \<^verbatim>\<open>limit(fn)\<close>
  starts \<open>fn\<close> at once while the count is below \<open>concurrency\<close> and queues it otherwise; when
  the promise of a started function settles, resolved or rejected, the count drops and the
  head of the queue is started.

  The state of a run: the jobs queued, the workers started and not settled, and the calls
  made so far, each with the \<^verbatim>\<open>tableId\<close> of the worker that made it (\<open>0\<close> for the
  orchestrator itself).
\<close>

record 'style sched =
  queue :: "ISaveTableOptions list"
  active :: "'style worker list"
  trace :: "(nat \<times> 'style event) list"

definition tagged :: "nat \<Rightarrow> 'a list \<Rightarrow> (nat \<times> 'a) list" where
  "tagged tid evs = map (Pair tid) evs"

definition run_job :: "ISaveTableOptions \<Rightarrow> 'style sched \<Rightarrow> 'style sched" where
  "run_job opts s =
     s\<lparr>active := active s @ [snd (start opts)],
       trace := trace s @ tagged (tableId opts) (fst (start opts))\<rparr>"

definition enqueue :: "nat \<Rightarrow> ISaveTableOptions \<Rightarrow> 'style sched \<Rightarrow> 'style sched" where
  "enqueue concurrency opts s =
     (if length (active s) < concurrency then run_job opts s
      else s\<lparr>queue := queue s @ [opts]\<rparr>)"

definition next_job :: "'style sched \<Rightarrow> 'style sched" where
  "next_job s =
     (case queue s of
        [] \<Rightarrow> s
      | opts # rest \<Rightarrow> run_job opts (s\<lparr>queue := rest\<rparr>))"

text \<open>
  One step of a run: the started worker at position \<open>i\<close> is resumed with the answers the
  environment has for its table. If its promise settles, the limiter starts the next job.
\<close>

definition resume_at :: "(nat \<Rightarrow> 'style outcome) \<Rightarrow> nat \<Rightarrow> 'style sched \<Rightarrow> 'style sched" where
  "resume_at outc i s =
     (let w = active s ! i;
          r = resume (outc (tableId (options w))) w;
          s1 = s\<lparr>trace := trace s @ tagged (tableId (options w)) (fst r)\<rparr>
      in case snd r of
           Awaiting w' \<Rightarrow> s1\<lparr>active := (active s)[i := w']\<rparr>
         | Resolved \<Rightarrow> next_job (s1\<lparr>active := take i (active s) @ drop (Suc i) (active s)\<rparr>)
         | Rejected e \<Rightarrow> next_job (s1\<lparr>active := take i (active s) @ drop (Suc i) (active s)\<rparr>))"

definition successors :: "(nat \<Rightarrow> 'style outcome) \<Rightarrow> 'style sched \<Rightarrow> 'style sched list" where
  "successors outc s = map (\<lambda>i. resume_at outc i s) [0..<length (active s)]"

text \<open>The states a run can pass through, whichever started worker is resumed next.\<close>

inductive reaches :: "(nat \<Rightarrow> 'style outcome) \<Rightarrow> 'style sched \<Rightarrow> 'style sched \<Rightarrow> bool"
  for outc :: "nat \<Rightarrow> 'style outcome" and s :: "'style sched" where
  reaches_refl: "reaches outc s s"
| reaches_step: "reaches outc s t \<Longrightarrow> i < length (active t) \<Longrightarrow> reaches outc s (resume_at outc i t)"

definition work :: "'style sched \<Rightarrow> nat" where
  "work s = sum_list (map (\<lambda>w. rank (pc w)) (active s)) + 5 * length (queue s)"

lemma rank_pos: "0 < rank p"
  by (cases p) simp_all

lemma work_run_job: "work (run_job opts s) = work s + 4"
  by (simp add: work_def run_job_def start_def)

lemma work_next_job:
  "work (next_job s) = (if queue s = [] then work s else work s - 1)"
  by (cases "queue s") (simp_all add: next_job_def work_run_job, simp add: work_def)

lemma work_remove:
  assumes "i < length (active s)"
  shows "work (s\<lparr>trace := tr, active := take i (active s) @ drop (Suc i) (active s)\<rparr>) +
         rank (pc (active s ! i)) = work s"
proof -
  have a: "active s = take i (active s) @ active s ! i # drop (Suc i) (active s)"
    using assms by (rule id_take_nth_drop)
  have "sum_list (map (\<lambda>w. rank (pc w)) (active s)) =
      sum_list (map (\<lambda>w. rank (pc w)) (take i (active s) @ drop (Suc i) (active s))) +
      rank (pc (active s ! i))"
    by (subst a) simp
  then show ?thesis by (simp add: work_def)
qed

lemma work_update:
  assumes "i < length (active s)"
  shows "work (s\<lparr>trace := tr, active := (active s)[i := w']\<rparr>) + rank (pc (active s ! i)) =
         work s + rank (pc w')"
proof -
  have a: "active s = take i (active s) @ active s ! i # drop (Suc i) (active s)"
    using assms by (rule id_take_nth_drop)
  have b: "(active s)[i := w'] = take i (active s) @ w' # drop (Suc i) (active s)"
    using assms by (rule upd_conv_take_nth_drop)
  have "sum_list (map (\<lambda>w. rank (pc w)) ((active s)[i := w'])) + rank (pc (active s ! i)) =
        sum_list (map (\<lambda>w. rank (pc w)) (active s)) + rank (pc w')"
    by (subst (2) a, subst b) simp
  then show ?thesis by (simp add: work_def)
qed

lemma work_resume_at:
  assumes "i < length (active s)"
  shows "work (resume_at outc i s) < work s"
proof -
  let ?w = "active s ! i"
  let ?r = "resume (outc (tableId (options ?w))) ?w"
  let ?tr = "trace s @ tagged (tableId (options ?w)) (fst ?r)"
  let ?rm = "s\<lparr>trace := ?tr, active := take i (active s) @ drop (Suc i) (active s)\<rparr>"
  have rm: "work ?rm + rank (pc ?w) = work s"
    using assms by (rule work_remove)
  have nx: "work (next_job ?rm) \<le> work ?rm"
    by (simp add: work_next_job)
  have settled: "work (next_job ?rm) < work s"
    using rm nx rank_pos [of "pc ?w"] by linarith
  show ?thesis
  proof (cases "snd ?r")
    case (Awaiting w')
    then have "?r = (fst ?r, Awaiting w')" by (simp add: prod_eq_iff)
    then have "rank (pc w') < rank (pc ?w)" by (rule resume_rank)
    moreover have "work (s\<lparr>trace := ?tr, active := (active s)[i := w']\<rparr>) + rank (pc ?w) =
        work s + rank (pc w')"
      using assms by (rule work_update)
    ultimately show ?thesis using Awaiting by (simp add: resume_at_def Let_def)
  next
    case Resolved
    then show ?thesis using settled by (simp add: resume_at_def Let_def)
  next
    case (Rejected e)
    then show ?thesis using settled by (simp add: resume_at_def Let_def)
  qed
qed

text \<open>A run to its end, resuming the worker that was started first.\<close>

function drain :: "(nat \<Rightarrow> 'style outcome) \<Rightarrow> 'style sched \<Rightarrow> 'style sched" where
  "drain outc s = (if active s = [] then s else drain outc (resume_at outc 0 s))"
  by pat_completeness auto
termination
  by (relation "measure (\<lambda>(outc, s). work s)") (auto intro: work_resume_at)

declare drain.simps [simp del]

text \<open>
  The services the orchestrator prepares the export with, and its arguments. The index sheet
  is resolved by \<^const>\<open>getArchiveIndexSheet\<close>, from its own environment.
\<close>

record preparation =
  res_getArchiveFolder :: "js_error + string"
  res_getDriveUploadFolder :: "string \<Rightarrow> js_error + string"
  sheets_env :: env
  order_folder_sheet :: "nat list"
  res_insertExportRowInIndexSheet :: "ISheet \<Rightarrow> string \<Rightarrow> js_error + unit"

record IDoExportOptions =
  do_ipHash :: string
  do_exportId :: string
  do_tables :: "ITable list"

definition job :: "IDoExportOptions \<Rightarrow> string \<Rightarrow> ISheet \<Rightarrow> nat \<times> ITable \<Rightarrow> ISaveTableOptions" where
  "job opts folder sheet = (\<lambda>(index, t).
     \<lparr>tableId = index + 1, table = t, ipHash = do_ipHash opts, folderId = folder,
      archiveSheet = sheet, exportId = do_exportId opts,
      isLast = (int index = int (length (do_tables opts)) - 1)\<rparr>)"

text \<open>\<^verbatim>\<open>tables.map((table, index) => limit(() => saveTable({...})))\<close>\<close>

definition dispatch :: "nat \<Rightarrow> ISaveTableOptions list \<Rightarrow> 'style sched \<Rightarrow> 'style sched" where
  "dispatch concurrency jobs s = fold (enqueue concurrency) jobs s"

definition initial :: "IDoExportOptions \<Rightarrow> 'style sched" where
  "initial opts =
     \<lparr>queue = [], active = [],
      trace = [(0, logExportStart (do_exportId opts) (length (do_tables opts)))]\<rparr>"

definition no_calls :: calls where
  "no_calls = \<lparr>n_get = 0, n_create = 0, n_batchUpdate = 0\<rparr>"

text \<open>
  The exported function: what its promise settles with, and the state of the run when it
  does. The workers it has dispatched go on from that state.
\<close>

definition doExport ::
  "config \<Rightarrow> preparation \<Rightarrow> IDoExportOptions \<Rightarrow> (js_error + string) \<times> 'style sched" where
  "doExport cfg su opts =
     (case res_getArchiveFolder su of
        Inl error \<Rightarrow> (Inl error, initial opts)
      | Inr archiveFolderId \<Rightarrow>
          (case Promise_all2 (order_folder_sheet su)
                  (res_getDriveUploadFolder su archiveFolderId)
                  (fst (getArchiveIndexSheet cfg (sheets_env su) archiveFolderId no_calls)) of
             Inl error \<Rightarrow> (Inl error, initial opts)
           | Inr (folder, sheet) \<Rightarrow>
               (case res_insertExportRowInIndexSheet su sheet folder of
                  Inl error \<Rightarrow> (Inl error, initial opts)
                | Inr _ \<Rightarrow>
                    (Inr folder,
                     dispatch 1 (map (job opts folder sheet) (enumerate 0 (do_tables opts)))
                       (initial opts)))))"

definition is_logExportFinish :: "nat \<times> 'style event \<Rightarrow> bool" where
  "is_logExportFinish x = (case snd x of logExportFinish _ \<Rightarrow> True | _ \<Rightarrow> False)"

text \<open>The events of a trace that come from the worker of a table, not from the orchestrator.\<close>

definition worker_events :: "(nat \<times> 'style event) list \<Rightarrow> (nat \<times> 'style event) list" where
  "worker_events tr = filter (\<lambda>x. fst x \<noteq> 0) tr"

text \<open>
  The worker of a table enters its \<^verbatim>\<open>catch\<close> block when one of its three awaits rejects;
  its promise rejects when the progress update of the \<^verbatim>\<open>catch\<close> block rejects in turn.
\<close>

definition enters_catch :: "'style outcome \<Rightarrow> bool" where
  "enters_catch out =
     (isl (res_getCsv out) \<or>
      isl (Promise_all2 (order_upload_styles out)
             (res_uploadToDrive out) (res_getFusiontableStyles out)) \<or>
      first_rejection (order_finalize out)
        [rejection (res_logFileExportInIndexSheet out),
         rejection (res_addFilePermissions out),
         rejection (res_updateTableExportProgress out status_success)] \<noteq> None)"

definition worker_rejects :: "'style outcome \<Rightarrow> bool" where
  "worker_rejects out =
     (enters_catch out \<and> isl (res_updateTableExportProgress out status_error))"

section \<open>Concrete inputs\<close>

definition cfg0 :: config where
  "cfg0 = \<lparr>MIME_csv = ''text/csv'',
            MIME_spreadsheet = ''application/vnd.google-apps.spreadsheet'',
            VISUALIZER_BASE_URI = ''https://viz.example'',
            DRIVE_ARCHIVE_INDEX_SHEET = ''ft-archive-index'',
            RETRY_retries = 2\<rparr>"

definition tableA :: ITable where
  "tableA = \<lparr>table_id = ''tA'', table_name = ''A'', permissions = []\<rparr>"

definition tableB :: ITable where
  "tableB = \<lparr>table_id = ''tB'', table_name = ''B'', permissions = []\<rparr>"

definition file0 :: IFile where
  "file0 = \<lparr>file_id = ''f1'', file_name = ''A.csv'', mimeType = ''text/csv''\<rparr>"

definition sheet0 :: ISheet where
  "sheet0 = \<lparr>spreadsheetId = ''s1'', sheetId = 7\<rparr>"

text \<open>Here a style is its own hash.\<close>

definition options0 :: "string list \<Rightarrow> bool \<Rightarrow> string ILogFileOptions" where
  "options0 sts geometry =
     \<lparr>opt_sheet = sheet0, opt_table = tableA, opt_driveFile = file0, opt_styles = sts,
      opt_hasGeometryData = geometry, opt_isLarge = False\<rparr>"

definition response_with_id :: "int \<Rightarrow> get_response" where
  "response_with_id i =
     \<lparr>get_statusText = ''OK'',
      data_sheets = Some [\<lparr>sheet_properties = Some \<lparr>prop_sheetId = Some i\<rparr>\<rparr>]\<rparr>"

text \<open>An archive folder that holds a file of the well-known name, with id \<open>s1\<close>; the
  environments differ in what the lookup of its sheets answers.\<close>

definition env_with :: "(nat \<Rightarrow> js_error + get_response) \<Rightarrow> env" where
  "env_with answers =
     \<lparr>findFile = (\<lambda>name parent. Inr (Some ''s1'')),
      spreadsheets_get = (\<lambda>spreadsheet k. answers k),
      files_create = (\<lambda>parent k. Inr \<lparr>create_statusText = ''OK'', data_id = ''s2''\<rparr>),
      spreadsheets_batchUpdate = (\<lambda>spreadsheet k. Inr ())\<rparr>"

definition env_404 :: env where
  "env_404 = env_with (\<lambda>k. Inl (GaxiosError 404))"

definition env_404_once :: env where
  "env_404_once = env_with (\<lambda>k. if k = 0 then Inl (GaxiosError 404) else Inr (response_with_id 7))"

definition env_id0 :: env where
  "env_id0 = env_with (\<lambda>k. Inr (response_with_id 0))"

definition env_ok :: env where
  "env_ok = env_with (\<lambda>k. Inr (response_with_id 7))"

definition prep_with :: "env \<Rightarrow> preparation" where
  "prep_with e =
     \<lparr>res_getArchiveFolder = Inr ''archive'',
      res_getDriveUploadFolder = (\<lambda>parent. Inr ''folder''),
      sheets_env = e,
      order_folder_sheet = [0, 1],
      res_insertExportRowInIndexSheet = (\<lambda>sheet folder. Inr ())\<rparr>"

definition export_of :: "ITable list \<Rightarrow> IDoExportOptions" where
  "export_of ts = \<lparr>do_ipHash = ''ip'', do_exportId = ''e1'', do_tables = ts\<rparr>"

definition outcome_ok :: "string outcome" where
  "outcome_ok =
     \<lparr>res_getCsv = Inr \<lparr>csv_byteLength = 9437184, csv_hasGeometryData = Some True\<rparr>,
      res_uploadToDrive = Inr file0,
      res_getFusiontableStyles = Inr [''a'', ''b''],
      order_upload_styles = [0, 1],
      res_logFileExportInIndexSheet = Inr (),
      res_addFilePermissions = Inr (),
      res_updateTableExportProgress = (\<lambda>st. Inr ()),
      order_finalize = [0, 1, 2]\<rparr>"

text \<open>The table cannot be fetched; the progress store takes the error.\<close>

definition outcome_failed :: "string outcome" where
  "outcome_failed = outcome_ok\<lparr>res_getCsv := Inl (GaxiosError 500)\<rparr>"

text \<open>Three exports: of two tables, of no table, and of two tables into an archive whose
  index sheet answers 404.\<close>

definition export_two :: "(js_error + string) \<times> string sched" where
  "export_two = doExport cfg0 (prep_with env_ok) (export_of [tableA, tableB])"

definition export_none :: "(js_error + string) \<times> string sched" where
  "export_none = doExport cfg0 (prep_with env_ok) (export_of [])"

definition export_404 :: "(js_error + string) \<times> string sched" where
  "export_404 = doExport cfg0 (prep_with env_404) (export_of [tableA, tableB])"

text \<open>Every table is exported; and the last table cannot be fetched.\<close>

definition all_ok :: "nat \<Rightarrow> string outcome" where
  "all_ok i = outcome_ok"

definition last_failed :: "nat \<Rightarrow> string outcome" where
  "last_failed i = (if i = 2 then outcome_failed else outcome_ok)"

section \<open>Bookkeeping for runs\<close>

definition count_in :: "('a \<Rightarrow> bool) \<Rightarrow> 'a list \<Rightarrow> nat" where
  "count_in P xs = length (filter P xs)"

text \<open>
  The calls satisfying \<open>P\<close> that are still ahead in a state: those the started workers and
  the queued jobs will make until every promise has settled.
\<close>

definition ahead :: "(nat \<times> 'style event \<Rightarrow> bool) \<Rightarrow> (nat \<Rightarrow> 'style outcome) \<Rightarrow> 'style sched \<Rightarrow> nat" where
  "ahead P outc s =
     sum_list (map (\<lambda>w. count_in P (tagged (tableId (options w))
                            (fst (finish_worker (outc (tableId (options w))) w))))
                   (active s)) +
     sum_list (map (\<lambda>j. count_in P (tagged (tableId j) (job_events (outc (tableId j)) j)))
                   (queue s))"

definition potential :: "(nat \<times> 'style event \<Rightarrow> bool) \<Rightarrow> (nat \<Rightarrow> 'style outcome) \<Rightarrow> 'style sched \<Rightarrow> nat" where
  "potential P outc s = count_in P (trace s) + ahead P outc s"

text \<open>
  The tables with a worker queued or started, by \<^verbatim>\<open>tableId\<close>, and the tables (or the
  orchestrator) that have made a call. A state is orderly when no table is queued or
  started twice and no queued table has made a call.
\<close>

definition ids :: "'style sched \<Rightarrow> nat list" where
  "ids s = map tableId (queue s) @ map (\<lambda>w. tableId (options w)) (active s)"

definition callers :: "'style sched \<Rightarrow> nat set" where
  "callers s = fst ` set (trace s)"

definition orderly :: "'style sched \<Rightarrow> bool" where
  "orderly s = (distinct (ids s) \<and> set (map tableId (queue s)) \<inter> callers s = {})"

text \<open>The limiter never leaves a job queued while nothing is running.\<close>

definition busy :: "'style sched \<Rightarrow> bool" where
  "busy s = (queue s = [] \<or> active s \<noteq> [])"

section \<open>Verified properties: index-sheet rows\<close>

lemma styleLink_nonempty: "styleLink cfg h f l s \<noteq> []"
  by (simp add: styleLink_def)

lemma styleLink_qualified: "sublist ''&style='' (styleLink cfg h f l s)"
  unfolding styleLink_def by (metis sublist_appendI)

lemma distinct_map_wrap: "distinct (map (\<lambda>x. a @ x @ b) ys) = distinct ys"
  by (simp add: distinct_map inj_on_def)

lemma styleLink_distinct:
  "distinct (map (styleLink cfg h f l) sts) = distinct (map h sts)"
proof -
  have "map (styleLink cfg h f l) sts =
      map (\<lambda>x. (visualizerBaseLink cfg f @ ''&style='') @ x @ large_suffix l) (map h sts)"
    by (simp add: styleLink_def)
  then show ?thesis by (simp only: distinct_map_wrap)
qed

lemma createRow_plain:
  "createRow cfg t f d None None =
     [StringValue (file_name f), StringValue (tableLink t), StringValue (fileLink f),
      StringValue (fileType cfg f), StringValue no_geometry_message, StringValue d]"
  by (simp add: createRow_def)

lemma createRow_link:
  "l \<noteq> [] \<Longrightarrow> createRow cfg t f d (Some l) None =
     [StringValue (file_name f), StringValue (tableLink t), StringValue (fileLink f),
      StringValue (fileType cfg f), FormulaValue (hyperlink l ''''), StringValue d]"
  by (simp add: createRow_def)

lemma createRow_indexed:
  "l \<noteq> [] \<Longrightarrow> createRow cfg t f d (Some l) (Some i) =
     [StringValue (file_name f),
      StringValue (if i = 0 then tableLink t else ''''),
      StringValue (if i = 0 then fileLink f else ''''),
      StringValue (if i = 0 then fileType cfg f else ''''),
      FormulaValue (hyperlink l (string_of_nat (i + 1))), StringValue d]"
  by (simp add: createRow_def)

lemma string_of_nat_1: "string_of_nat (Suc 0) = ''1''"
  by code_simp

lemma string_of_nat_2: "string_of_nat (Suc (Suc 0)) = ''2''"
  by code_simp

lemma no_geometry_message_nonempty: "no_geometry_message \<noteq> ''''"
  by (simp add: no_geometry_message_def)

text \<open>
  Claim C3, as amended. For a table with geometry data and exactly one style,
  \<^verbatim>\<open>logFileExportInIndexSheet\<close> builds a single row, which carries the source, destination
  and type columns and a visualization label without a number; its visualization link is
  qualified by the style: it is the base link of the file followed by \<^verbatim>\<open>&style=\<close> and the
  hash of the style.
\<close>

theorem single_style_row_is_style_qualified:
  assumes "opt_hasGeometryData opts" and "opt_styles opts = [style]"
  shows "index_rows cfg getStyleHash exportDate opts =
           [[StringValue (file_name (opt_driveFile opts)),
             StringValue (tableLink (opt_table opts)),
             StringValue (fileLink (opt_driveFile opts)),
             StringValue (fileType cfg (opt_driveFile opts)),
             FormulaValue
               (hyperlink
                  (visualizerBaseLink cfg (opt_driveFile opts) @ ''&style='' @
                   getStyleHash style @ large_suffix (opt_isLarge opts)) ''''),
             StringValue exportDate]]
         \<and> sublist ''&style=''
             (visualizerBaseLink cfg (opt_driveFile opts) @ ''&style='' @
              getStyleHash style @ large_suffix (opt_isLarge opts))"
proof -
  have "index_rows cfg getStyleHash exportDate opts =
      [createRow cfg (opt_table opts) (opt_driveFile opts) exportDate
         (Some (styleLink cfg getStyleHash (opt_driveFile opts) (opt_isLarge opts) style))
         None]"
    using assms by (simp add: index_rows_def Let_def)
  then show ?thesis
    using styleLink_qualified [of cfg getStyleHash "opt_driveFile opts" "opt_isLarge opts" style]
    by (simp add: createRow_link styleLink_nonempty) (simp add: styleLink_def)
qed

theorem single_style_row_witness:
  "index_rows cfg0 (\<lambda>s. s) ''2019-06-01'' (options0 [''a''] True) =
     [[StringValue ''A.csv'',
       StringValue ''https://fusiontables.google.com/DataSource?docid=tA'',
       StringValue ''https://drive.google.com/open?id=f1'',
       StringValue ''CSV'',
       FormulaValue (hyperlink ''https://viz.example#file=f1&style=a'' ''''),
       StringValue ''2019-06-01'']]"
  using single_style_row_is_style_qualified
    [where opts = "options0 [''a''] True" and style = "''a''" and cfg = cfg0
       and getStyleHash = "\<lambda>s. s" and exportDate = "''2019-06-01''"]
  by (simp add: options0_def cfg0_def tableA_def file0_def tableLink_def fileLink_def
      fileType_def visualizerBaseLink_def large_suffix_def)

text \<open>
  The claim as stated fails: with one style \<open>a\<close>, the link of the row is not the base link
  \<^verbatim>\<open>https://viz.example#file=f1\<close> of the file; it ends in the style parameter.
\<close>

theorem single_style_link_counterexample:
  "visualization_cell (hd (index_rows cfg0 (\<lambda>s. s) ''2019-06-01'' (options0 [''a''] True))) =
     FormulaValue (hyperlink ''https://viz.example#file=f1&style=a'' '''')
   \<and> visualization_cell (hd (index_rows cfg0 (\<lambda>s. s) ''2019-06-01'' (options0 [''a''] True))) \<noteq>
     FormulaValue (hyperlink (visualizerBaseLink cfg0 file0) '''')
   \<and> sublist ''&style='' ''https://viz.example#file=f1&style=a''"
proof -
  have "sublist ''&style='' (''https://viz.example#file=f1'' @ ''&style='' @ ''a'')"
    by (rule sublist_appendI)
  then show ?thesis
    by (simp add: index_rows_def Let_def createRow_def options0_def cfg0_def file0_def
        styleLink_def visualizerBaseLink_def large_suffix_def visualization_cell_def
        hyperlink_def dquote_def)
qed

text \<open>
  Claim C4, as amended. For a table whose content has no geometry data,
  \<^verbatim>\<open>logFileExportInIndexSheet\<close> builds exactly one row, whatever the styles are; the
  visualization cell of that row holds no link but the fixed text
  \<^verbatim>\<open>Cannot visualize - no geometry found.\<close> (with an em dash), which is not empty.
\<close>

theorem no_geometry_single_row:
  assumes "\<not> opt_hasGeometryData opts"
  shows "index_rows cfg getStyleHash exportDate opts =
           [[StringValue (file_name (opt_driveFile opts)),
             StringValue (tableLink (opt_table opts)),
             StringValue (fileLink (opt_driveFile opts)),
             StringValue (fileType cfg (opt_driveFile opts)),
             StringValue no_geometry_message,
             StringValue exportDate]]
         \<and> no_geometry_message \<noteq> ''''"
  using assms by (simp add: index_rows_def Let_def createRow_plain no_geometry_message_nonempty)

theorem no_geometry_single_row_witness:
  "index_rows cfg0 (\<lambda>s. s) ''2019-06-01'' (options0 [''a'', ''b'', ''c''] False) =
     [[StringValue ''A.csv'',
       StringValue ''https://fusiontables.google.com/DataSource?docid=tA'',
       StringValue ''https://drive.google.com/open?id=f1'',
       StringValue ''CSV'',
       StringValue no_geometry_message,
       StringValue ''2019-06-01'']]"
  using no_geometry_single_row
    [where opts = "options0 [''a'', ''b'', ''c''] False" and cfg = cfg0
       and getStyleHash = "\<lambda>s. s" and exportDate = "''2019-06-01''"]
  by (simp add: options0_def cfg0_def tableA_def file0_def tableLink_def fileLink_def
      fileType_def)

theorem no_geometry_cell_counterexample:
  "visualization_cell (hd (index_rows cfg0 (\<lambda>s. s) ''2019-06-01'' (options0 [] False))) =
     StringValue (''Cannot visualize '' @ [CHR 0xE2, CHR 0x80, CHR 0x94] @ '' no geometry found.'')
   \<and> visualization_cell (hd (index_rows cfg0 (\<lambda>s. s) ''2019-06-01'' (options0 [] False))) \<noteq>
     StringValue ''''"
  by (simp add: index_rows_def Let_def createRow_def options0_def visualization_cell_def
      no_geometry_message_def)

text \<open>
  Claim C5, as amended. For a table with geometry data and \<open>N > 1\<close> styles,
  \<^verbatim>\<open>logFileExportInIndexSheet\<close> builds exactly \<open>N\<close> rows, one per style in order. Row \<open>i\<close>
  (from 0) has the link qualified by the hash of style \<open>i\<close> and the label
  \<^verbatim>\<open>Visualization i+1\<close>; only row 0 carries the source, destination and type columns, which
  are blank in the others. The links are pairwise distinct exactly when the hashes of the
  styles are.
\<close>

theorem multi_style_rows:
  assumes "opt_hasGeometryData opts" and "1 < length (opt_styles opts)"
  shows "length (index_rows cfg getStyleHash exportDate opts) = length (opt_styles opts)
    \<and> (\<forall>i < length (opt_styles opts).
         index_rows cfg getStyleHash exportDate opts ! i =
           [StringValue (file_name (opt_driveFile opts)),
            StringValue (if i = 0 then tableLink (opt_table opts) else ''''),
            StringValue (if i = 0 then fileLink (opt_driveFile opts) else ''''),
            StringValue (if i = 0 then fileType cfg (opt_driveFile opts) else ''''),
            FormulaValue
              (hyperlink
                 (styleLink cfg getStyleHash (opt_driveFile opts) (opt_isLarge opts)
                    (opt_styles opts ! i))
                 (string_of_nat (i + 1))),
            StringValue exportDate])
    \<and> (distinct (map (styleLink cfg getStyleHash (opt_driveFile opts) (opt_isLarge opts))
                    (opt_styles opts))
         = distinct (map getStyleHash (opt_styles opts)))"
proof -
  let ?sts = "opt_styles opts"
  have rows: "index_rows cfg getStyleHash exportDate opts =
      map (\<lambda>(index, style).
             createRow cfg (opt_table opts) (opt_driveFile opts) exportDate
               (Some (styleLink cfg getStyleHash (opt_driveFile opts) (opt_isLarge opts) style))
               (Some index))
          (enumerate 0 ?sts)"
    using assms by (auto simp add: index_rows_def Let_def)
  have len: "length (index_rows cfg getStyleHash exportDate opts) = length ?sts"
    by (simp add: rows)
  have nth: "index_rows cfg getStyleHash exportDate opts ! i =
      createRow cfg (opt_table opts) (opt_driveFile opts) exportDate
        (Some (styleLink cfg getStyleHash (opt_driveFile opts) (opt_isLarge opts) (?sts ! i)))
        (Some i)" if "i < length ?sts" for i
    using that by (simp add: rows nth_enumerate_eq)
  show ?thesis
    by (simp add: len nth createRow_indexed styleLink_nonempty styleLink_distinct)
qed

theorem multi_style_rows_witness:
  "index_rows cfg0 (\<lambda>s. s) ''2019-06-01'' (options0 [''a'', ''b''] True) =
     [[StringValue ''A.csv'',
       StringValue ''https://fusiontables.google.com/DataSource?docid=tA'',
       StringValue ''https://drive.google.com/open?id=f1'',
       StringValue ''CSV'',
       FormulaValue (hyperlink ''https://viz.example#file=f1&style=a'' ''1''),
       StringValue ''2019-06-01''],
      [StringValue ''A.csv'', StringValue '''', StringValue '''', StringValue '''',
       FormulaValue (hyperlink ''https://viz.example#file=f1&style=b'' ''2''),
       StringValue ''2019-06-01'']]"
proof -
  let ?rows = "index_rows cfg0 (\<lambda>s. s) ''2019-06-01'' (options0 [''a'', ''b''] True)"
  have geo: "opt_hasGeometryData (options0 [''a'', ''b''] True)"
    and n: "1 < length (opt_styles (options0 [''a'', ''b''] True))"
    by (simp_all add: options0_def)
  note th = multi_style_rows
    [OF geo n, where cfg = cfg0 and getStyleHash = "\<lambda>s. s" and exportDate = "''2019-06-01''"]
  have l: "length ?rows = length (opt_styles (options0 [''a'', ''b''] True))"
    using th by (rule conjunct1)
  have nth: "i < length (opt_styles (options0 [''a'', ''b''] True)) \<Longrightarrow> ?rows ! i =
           [StringValue (file_name (opt_driveFile (options0 [''a'', ''b''] True))),
            StringValue (if i = 0 then tableLink (opt_table (options0 [''a'', ''b''] True)) else ''''),
            StringValue (if i = 0 then fileLink (opt_driveFile (options0 [''a'', ''b''] True)) else ''''),
            StringValue (if i = 0 then fileType cfg0 (opt_driveFile (options0 [''a'', ''b''] True)) else ''''),
            FormulaValue
              (hyperlink
                 (styleLink cfg0 (\<lambda>s. s) (opt_driveFile (options0 [''a'', ''b''] True))
                    (opt_isLarge (options0 [''a'', ''b''] True))
                    (opt_styles (options0 [''a'', ''b''] True) ! i))
                 (string_of_nat (i + 1))),
            StringValue ''2019-06-01'']" for i
    using th by blast
  have l2: "length ?rows = 2" using l by (simp add: options0_def)
  have r0: "?rows ! 0 = [StringValue ''A.csv'',
       StringValue ''https://fusiontables.google.com/DataSource?docid=tA'',
       StringValue ''https://drive.google.com/open?id=f1'',
       StringValue ''CSV'',
       FormulaValue (hyperlink ''https://viz.example#file=f1&style=a'' ''1''),
       StringValue ''2019-06-01'']"
    by (subst nth) (simp_all add: options0_def cfg0_def tableA_def file0_def tableLink_def
        fileLink_def fileType_def styleLink_def visualizerBaseLink_def large_suffix_def
        string_of_nat_1)
  have r1: "?rows ! 1 = [StringValue ''A.csv'', StringValue '''', StringValue '''', StringValue '''',
       FormulaValue (hyperlink ''https://viz.example#file=f1&style=b'' ''2''),
       StringValue ''2019-06-01'']"
    by (subst nth) (simp_all add: options0_def cfg0_def tableA_def file0_def tableLink_def
        fileLink_def fileType_def styleLink_def visualizerBaseLink_def large_suffix_def
        string_of_nat_2)
  show ?thesis
    using l2 r0 r1 by (simp add: list_eq_iff_nth_eq less_Suc_eq numeral_2_eq_2)
qed

text \<open>
  The claim as stated fails where two styles are the same: both rows then have the same
  visualization link, and differ in the label only.
\<close>

theorem multi_style_links_counterexample:
  "index_rows cfg0 (\<lambda>s. s) ''2019-06-01'' (options0 [''a'', ''a''] True) =
     [[StringValue ''A.csv'',
       StringValue ''https://fusiontables.google.com/DataSource?docid=tA'',
       StringValue ''https://drive.google.com/open?id=f1'',
       StringValue ''CSV'',
       FormulaValue (hyperlink ''https://viz.example#file=f1&style=a'' ''1''),
       StringValue ''2019-06-01''],
      [StringValue ''A.csv'', StringValue '''', StringValue '''', StringValue '''',
       FormulaValue (hyperlink ''https://viz.example#file=f1&style=a'' ''2''),
       StringValue ''2019-06-01'']]"
  by (simp add: index_rows_def Let_def createRow_def options0_def cfg0_def tableA_def file0_def
      tableLink_def fileLink_def fileType_def styleLink_def visualizerBaseLink_def
      large_suffix_def string_of_nat_1 string_of_nat_2)

section \<open>Verified properties: the rounded file size\<close>






lemma floor_log2_half: "\<lfloor>log 2 (1 / 2 :: real)\<rfloor> = - 1"
  by (subst floor_log_eq_powr_iff) (auto simp: powr_minus)







section \<open>Verified properties: the index-sheet resolver\<close>

lemma promiseRetry_always_rejected:
  assumes "\<And>k. k \<le> n \<Longrightarrow>
     getFirstSheetWorker cfg (spreadsheets_get e sid (n_get s + k)) = Inl err"
  shows "promiseRetry n (getFirstSheet_attempt cfg e sid) s =
     (Inl err, s\<lparr>n_get := n_get s + n + 1\<rparr>)"
  using assms
proof (induction n arbitrary: s)
  case 0
  from "0" [of 0] show ?case
    by (simp add: getFirstSheet_attempt_def)
next
  case (Suc n)
  have first: "getFirstSheetWorker cfg (spreadsheets_get e sid (n_get s)) = Inl err"
    using Suc.prems [of 0] by simp
  have rest: "promiseRetry n (getFirstSheet_attempt cfg e sid) (s\<lparr>n_get := n_get s + 1\<rparr>) =
      (Inl err, s\<lparr>n_get := n_get s + 1\<rparr>\<lparr>n_get := n_get (s\<lparr>n_get := n_get s + 1\<rparr>) + n + 1\<rparr>)"
  proof (rule Suc.IH)
    fix k assume "k \<le> n"
    then show "getFirstSheetWorker cfg
        (spreadsheets_get e sid (n_get (s\<lparr>n_get := n_get s + 1\<rparr>) + k)) = Inl err"
      using Suc.prems [of "Suc k"] by simp
  qed
  have step: "getFirstSheet_attempt cfg e sid s = (Inl err, s\<lparr>n_get := n_get s + 1\<rparr>)"
    by (simp add: getFirstSheet_attempt_def first)
  show ?case
    using rest by (simp add: step)
qed

lemma getFirstSheet_always_rejected:
  assumes "\<And>k. k \<le> RETRY_retries cfg \<Longrightarrow>
     getFirstSheetWorker cfg (spreadsheets_get e sid (n_get s + k)) = Inl err"
  shows "getFirstSheet cfg e sid s = (Inl err, s\<lparr>n_get := n_get s + RETRY_retries cfg + 1\<rparr>)"
  unfolding getFirstSheet_def using assms by (rule promiseRetry_always_rejected)

lemma worker_404:
  "getFirstSheetWorker cfg (Inl (GaxiosError 404)) = Inl (PlainError (legacy_conflict_message cfg))"
  by (simp add: getFirstSheetWorker_def getFirstSheetWorker_try_def getFirstSheetWorker_catch_def)

lemma worker_id0:
  assumes "data_sheets r = Some (sh # rest)" and "sheet_properties sh = Some p"
    and "prop_sheetId p = Some 0"
  shows "getFirstSheetWorker_try (Inr r) =
           Inl (PlainError (cannot_find_sheet_message (get_statusText r)))"
    and "getFirstSheetWorker cfg (Inr r) = Inl TypeError"
  using assms
  by (simp_all add: getFirstSheetWorker_def getFirstSheetWorker_try_def
      getFirstSheetWorker_catch_def)

text \<open>
  Claim C6, as amended. When the archive folder holds a file of the well-known name and the
  lookup of its sheets answers 404 on every attempt, the resolver fails with the
  legacy-artifact-conflict error, but only after the retry wrapper has repeated the lookup
  as often as the retry policy allows: the lookup is called \<^verbatim>\<open>retries + 1\<close> times. The
  conflict error is retried like any other failure of the lookup.
\<close>

theorem legacy_conflict_after_retries:
  assumes "findFile e (DRIVE_ARCHIVE_INDEX_SHEET cfg) archiveFolderId = Inr (Some sid)"
    and "sid \<noteq> ''''"
    and "\<forall>k \<le> RETRY_retries cfg. spreadsheets_get e sid (n_get s + k) = Inl (GaxiosError 404)"
  shows "getArchiveIndexSheet cfg e archiveFolderId s =
           (Inl (PlainError (legacy_conflict_message cfg)),
            s\<lparr>n_get := n_get s + RETRY_retries cfg + 1\<rparr>)"
proof -
  have "getFirstSheet cfg e sid s =
      (Inl (PlainError (legacy_conflict_message cfg)),
       s\<lparr>n_get := n_get s + RETRY_retries cfg + 1\<rparr>)"
    by (rule getFirstSheet_always_rejected) (simp add: assms(3) worker_404)
  then show ?thesis
    using assms(1,2) by (simp add: getArchiveIndexSheet_def)
qed

theorem legacy_conflict_witness:
  "getArchiveIndexSheet cfg0 env_404 ''archive'' no_calls =
     (Inl (PlainError (legacy_conflict_message cfg0)),
      \<lparr>n_get = 3, n_create = 0, n_batchUpdate = 0\<rparr>)"
  using legacy_conflict_after_retries
    [where e = env_404 and cfg = cfg0 and archiveFolderId = "''archive''" and sid = "''s1''"
       and s = no_calls]
  by (simp add: env_404_def env_with_def cfg0_def no_calls_def)

text \<open>
  The claim as stated fails: with a policy of two retries the failing lookup is made three
  times before the conflict error comes out; and when the lookup answers 404 once and a
  sheet afterwards, the retry absorbs the 404 and the resolver succeeds.
\<close>

theorem legacy_conflict_retried_counterexample:
  "n_get (snd (getArchiveIndexSheet cfg0 env_404 ''archive'' no_calls)) = 3
   \<and> fst (getArchiveIndexSheet cfg0 env_404 ''archive'' no_calls) =
       Inl (PlainError (legacy_conflict_message cfg0))
   \<and> getArchiveIndexSheet cfg0 env_404_once ''archive'' no_calls =
       (Inr \<lparr>spreadsheetId = ''s1'', sheetId = 7\<rparr>,
        \<lparr>n_get = 2, n_create = 0, n_batchUpdate = 0\<rparr>)"
  by (simp add: getArchiveIndexSheet_def getFirstSheet_def getFirstSheet_attempt_def
      getFirstSheetWorker_def getFirstSheetWorker_try_def getFirstSheetWorker_catch_def
      env_404_def env_404_once_def env_with_def cfg0_def no_calls_def response_with_id_def
      numeral_2_eq_2)

lemma sheet_id_zero_lookup_fails:
  assumes "findFile e (DRIVE_ARCHIVE_INDEX_SHEET cfg) archiveFolderId = Inr (Some sid)"
    and "sid \<noteq> ''''"
    and "\<forall>k \<le> RETRY_retries cfg. spreadsheets_get e sid (n_get s + k) = Inr r"
    and "data_sheets r = Some (sh # rest)"
    and "sheet_properties sh = Some p"
    and "prop_sheetId p = Some 0"
  shows "getFirstSheetWorker_try (Inr r) =
           Inl (PlainError (cannot_find_sheet_message (get_statusText r)))"
    and "getFirstSheetWorker cfg (Inr r) = Inl TypeError"
    and "getArchiveIndexSheet cfg e archiveFolderId s =
           (Inl TypeError, s\<lparr>n_get := n_get s + RETRY_retries cfg + 1\<rparr>)"
proof -
  note w = worker_id0 [OF assms(4,5,6)]
  show "getFirstSheetWorker_try (Inr r) =
      Inl (PlainError (cannot_find_sheet_message (get_statusText r)))"
    by (rule w(1))
  show "getFirstSheetWorker cfg (Inr r) = Inl TypeError"
    by (rule w(2))
  have "getFirstSheet cfg e sid s = (Inl TypeError, s\<lparr>n_get := n_get s + RETRY_retries cfg + 1\<rparr>)"
    by (rule getFirstSheet_always_rejected) (simp add: assms(3) w(2))
  then show "getArchiveIndexSheet cfg e archiveFolderId s =
      (Inl TypeError, s\<lparr>n_get := n_get s + RETRY_retries cfg + 1\<rparr>)"
    using assms(1,2) by (simp add: getArchiveIndexSheet_def)
qed

text \<open>
  Claim C9: the code does not do what the claim says. The claim has the first-sheet lookup
  fail with the cannot-find-sheet error for a spreadsheet whose first sheet has the id 0.
  The presence check does treat the id 0 as absent, and the \<^verbatim>\<open>try\<close> block does raise the
  cannot-find-sheet error; but the \<^verbatim>\<open>throw\<close> stands inside the \<^verbatim>\<open>try\<close> block, and the
  \<^verbatim>\<open>catch\<close> block of the same function reads \<^verbatim>\<open>error.response.data\<close> of that error,
  which has no \<^verbatim>\<open>response\<close>. At the input below (an archive with the index file \<open>s1\<close>
  whose lookup answers one sheet with id 0, two retries) every attempt of the lookup
  rejects with a \<^verbatim>\<open>TypeError\<close>, and after three lookups \<^verbatim>\<open>getArchiveIndexSheet\<close> fails
  with that \<^verbatim>\<open>TypeError\<close>, not with the cannot-find-sheet error.
\<close>

theorem sheet_id_zero_rejects_with_TypeError:
  "getFirstSheetWorker_try (Inr (response_with_id 0)) =
     Inl (PlainError ''Cannot find Sheet in Spreadsheet: OK'')
   \<and> getFirstSheetWorker cfg0 (Inr (response_with_id 0)) = Inl TypeError
   \<and> getFirstSheetWorker cfg0 (Inr (response_with_id 0)) \<noteq>
       Inl (PlainError ''Cannot find Sheet in Spreadsheet: OK'')
   \<and> getArchiveIndexSheet cfg0 env_id0 ''archive'' no_calls =
       (Inl TypeError, \<lparr>n_get = 3, n_create = 0, n_batchUpdate = 0\<rparr>)"
  by (simp add: getArchiveIndexSheet_def getFirstSheet_def getFirstSheet_attempt_def
      getFirstSheetWorker_def getFirstSheetWorker_try_def getFirstSheetWorker_catch_def
      env_id0_def env_with_def cfg0_def no_calls_def response_with_id_def numeral_2_eq_2
      cannot_find_sheet_message_def)

section \<open>Verified properties: the limiter\<close>

lemma active_run_job: "length (active (run_job j s)) = Suc (length (active s))"
  by (simp add: run_job_def)

lemma active_enqueue:
  "length (active s) \<le> c \<Longrightarrow> length (active (enqueue c j s)) \<le> c"
  by (simp add: enqueue_def active_run_job)

lemma active_dispatch:
  "length (active s) \<le> c \<Longrightarrow> length (active (dispatch c jobs s)) \<le> c"
  unfolding dispatch_def
  by (induction jobs arbitrary: s) (simp_all add: active_enqueue)

lemma active_next_job:
  "length (active (next_job s)) \<le> Suc (length (active s))"
  by (cases "queue s") (simp_all add: next_job_def active_run_job)

lemma active_resume_at:
  assumes "i < length (active s)" and "length (active s) \<le> c"
  shows "length (active (resume_at outc i s)) \<le> c"
proof -
  let ?w = "active s ! i"
  let ?r = "resume (outc (tableId (options ?w))) ?w"
  let ?rm = "s\<lparr>trace := trace s @ tagged (tableId (options ?w)) (fst ?r),
               active := take i (active s) @ drop (Suc i) (active s)\<rparr>"
  have "length (active ?rm) = length (active s) - 1"
    using assms(1) by simp
  then have "length (active (next_job ?rm)) \<le> c"
    using active_next_job [of ?rm] assms by linarith
  then show ?thesis
    using assms(2) by (cases "snd ?r") (simp_all add: resume_at_def Let_def)
qed

lemma active_reaches:
  "reaches outc s t \<Longrightarrow> length (active s) \<le> c \<Longrightarrow> length (active t) \<le> c"
  by (induction rule: reaches.induct) (simp_all add: active_resume_at)

lemma doExport_state:
  "snd (doExport cfg su opts :: (js_error + string) \<times> 'style sched) = initial opts \<or>
   (\<exists>folder sheet. snd (doExport cfg su opts :: (js_error + string) \<times> 'style sched) =
      dispatch 1 (map (job opts folder sheet) (enumerate 0 (do_tables opts))) (initial opts))"
  by (auto simp: doExport_def split: sum.splits prod.splits)

lemma doExport_active:
  "length (active (snd (doExport cfg su opts :: (js_error + string) \<times> 'style sched))) \<le> 1"
proof -
  let ?s0 = "snd (doExport cfg su opts :: (js_error + string) \<times> 'style sched)"
  have init: "length (active (initial opts :: 'style sched)) \<le> 1"
    by (simp add: initial_def)
  have "?s0 = initial opts \<or>
      (\<exists>folder sheet. ?s0 =
         dispatch 1 (map (job opts folder sheet) (enumerate 0 (do_tables opts))) (initial opts))"
    by (rule doExport_state)
  then show ?thesis
  proof
    assume "?s0 = initial opts"
    with init show ?thesis by simp
  next
    assume "\<exists>folder sheet. ?s0 =
      dispatch 1 (map (job opts folder sheet) (enumerate 0 (do_tables opts))) (initial opts)"
    then obtain folder sheet where "?s0 =
      dispatch 1 (map (job opts folder sheet) (enumerate 0 (do_tables opts))) (initial opts)"
      by blast
    with active_dispatch [OF init] show ?thesis by simp
  qed
qed

section \<open>Verified properties: what a run still has ahead\<close>

lemma count_in_append: "count_in P (xs @ ys) = count_in P xs + count_in P ys"
  by (simp add: count_in_def)

lemma tagged_append: "tagged t (xs @ ys) = tagged t xs @ tagged t ys"
  by (simp add: tagged_def)

lemma finish_worker_unfold:
  "fst (finish_worker out w) =
     fst (resume out w) @
     (case snd (resume out w) of Awaiting w' \<Rightarrow> fst (finish_worker out w') | _ \<Rightarrow> [])"
  by (subst finish_worker.simps) (auto split: prod.splits continuation.splits)

lemma resume_options:
  "resume out w = (evs, Awaiting w') \<Longrightarrow> options w' = options w"
  by (cases "pc w")
    (auto simp: resume_def catch_block_def Let_def split: sum.splits option.splits prod.splits)

lemma start_options: "options (snd (start j)) = j"
  by (simp add: start_def)

lemma potential_run_job:
  "potential P outc (run_job j s) =
     potential P outc s + count_in P (tagged (tableId j) (job_events (outc (tableId j)) j))"
  by (simp add: potential_def ahead_def run_job_def start_options job_events_def
      count_in_append tagged_append)

lemma potential_enqueue:
  "potential P outc (enqueue c j s) =
     potential P outc s + count_in P (tagged (tableId j) (job_events (outc (tableId j)) j))"
  by (simp add: enqueue_def potential_run_job) (simp add: potential_def ahead_def)

lemma potential_dispatch:
  "potential P outc (dispatch c jobs s) =
     potential P outc s +
     sum_list (map (\<lambda>j. count_in P (tagged (tableId j) (job_events (outc (tableId j)) j))) jobs)"
  unfolding dispatch_def
  by (induction jobs arbitrary: s) (simp_all add: potential_enqueue)

lemma potential_next_job: "potential P outc (next_job s) = potential P outc s"
proof (cases "queue s")
  case Nil
  then show ?thesis by (simp add: next_job_def)
next
  case (Cons j rest)
  have "potential P outc s =
      potential P outc (s\<lparr>queue := rest\<rparr>) +
      count_in P (tagged (tableId j) (job_events (outc (tableId j)) j))"
    using Cons by (simp add: potential_def ahead_def)
  then show ?thesis
    using Cons by (simp add: next_job_def potential_run_job)
qed

lemma potential_resume_at:
  assumes "i < length (active s)"
  shows "potential P outc (resume_at outc i s) = potential P outc s"
proof -
  let ?w = "active s ! i"
  let ?tid = "tableId (options ?w)"
  let ?r = "resume (outc ?tid) ?w"
  let ?f = "\<lambda>w. count_in P (tagged (tableId (options w))
                (fst (finish_worker (outc (tableId (options w))) w)))"
  let ?q = "sum_list (map (\<lambda>j. count_in P (tagged (tableId j) (job_events (outc (tableId j)) j)))
                (queue s))"
  let ?before = "sum_list (map ?f (take i (active s)))"
  let ?after = "sum_list (map ?f (drop (Suc i) (active s)))"
  let ?now = "count_in P (tagged ?tid (fst ?r))"
  have split: "active s = take i (active s) @ ?w # drop (Suc i) (active s)"
    using assms by (rule id_take_nth_drop)
  have "sum_list (map ?f (active s)) = ?before + ?f ?w + ?after"
    by (subst split) simp
  then have old: "potential P outc s = count_in P (trace s) + (?before + ?f ?w + ?after) + ?q"
    by (simp add: potential_def ahead_def)
  have unfold: "?f ?w = ?now +
      (case snd ?r of
         Awaiting w' \<Rightarrow> count_in P (tagged ?tid (fst (finish_worker (outc ?tid) w')))
       | _ \<Rightarrow> 0)"
    by (subst finish_worker_unfold)
      (simp add: tagged_append count_in_append tagged_def count_in_def split: continuation.splits)
  let ?rm = "s\<lparr>trace := trace s @ tagged ?tid (fst ?r),
               active := take i (active s) @ drop (Suc i) (active s)\<rparr>"
  have rm: "potential P outc ?rm = count_in P (trace s) + ?now + (?before + ?after) + ?q"
    by (simp add: potential_def ahead_def count_in_append)
  show ?thesis
  proof (cases "snd ?r")
    case (Awaiting w')
    then have "?r = (fst ?r, Awaiting w')" by (simp add: prod_eq_iff)
    then have same: "options w' = options ?w" by (rule resume_options)
    have upd: "(active s)[i := w'] = take i (active s) @ w' # drop (Suc i) (active s)"
      using assms by (rule upd_conv_take_nth_drop)
    have "potential P outc (s\<lparr>trace := trace s @ tagged ?tid (fst ?r),
                                active := (active s)[i := w']\<rparr>) =
        count_in P (trace s) + ?now + (?before + ?f w' + ?after) + ?q"
      by (simp add: potential_def ahead_def count_in_append upd)
    moreover have "?f ?w = ?now + ?f w'"
      using unfold Awaiting same by simp
    ultimately show ?thesis
      using old Awaiting by (simp add: resume_at_def Let_def)
  next
    case Resolved
    then have "?f ?w = ?now" using unfold by simp
    then show ?thesis
      using old rm Resolved by (simp add: resume_at_def Let_def potential_next_job)
  next
    case (Rejected e)
    then have "?f ?w = ?now" using unfold by simp
    then show ?thesis
      using old rm Rejected by (simp add: resume_at_def Let_def potential_next_job)
  qed
qed

lemma potential_reaches:
  "reaches outc s t \<Longrightarrow> potential P outc t = potential P outc s"
  by (induction rule: reaches.induct) (simp_all add: potential_resume_at)

lemma potential_at_end:
  "active s = [] \<Longrightarrow> queue s = [] \<Longrightarrow> potential P outc s = count_in P (trace s)"
  by (simp add: potential_def ahead_def)

lemma count_le_potential: "count_in P (trace s) \<le> potential P outc s"
  by (simp add: potential_def)


lemma busy_enqueue: "0 < c \<Longrightarrow> busy s \<Longrightarrow> busy (enqueue c j s)"
  by (auto simp: busy_def enqueue_def run_job_def)

lemma busy_dispatch: "0 < c \<Longrightarrow> busy s \<Longrightarrow> busy (dispatch c jobs s)"
  unfolding dispatch_def
  by (induction jobs arbitrary: s) (simp_all add: busy_enqueue)

lemma busy_next_job: "busy (next_job s)"
  by (cases "queue s") (simp_all add: busy_def next_job_def run_job_def)

lemma busy_resume_at:
  assumes "i < length (active s)" and "busy s"
  shows "busy (resume_at outc i s)"
proof (cases "snd (resume (outc (tableId (options (active s ! i)))) (active s ! i))")
  case (Awaiting w')
  then show ?thesis
    using assms by (auto simp: resume_at_def Let_def busy_def)
next
  case Resolved
  then show ?thesis by (simp add: resume_at_def Let_def busy_next_job)
next
  case (Rejected e)
  then show ?thesis by (simp add: resume_at_def Let_def busy_next_job)
qed

lemma busy_reaches: "reaches outc s t \<Longrightarrow> busy s \<Longrightarrow> busy t"
  by (induction rule: reaches.induct) (simp_all add: busy_resume_at)

lemma reaches_trans_step:
  assumes "reaches outc (resume_at outc i s) t" and "i < length (active s)"
  shows "reaches outc s t"
  using assms(1)
proof (induction rule: reaches.induct)
  case reaches_refl
  show ?case
    by (rule reaches.reaches_step [OF reaches.reaches_refl assms(2)])
next
  case (reaches_step t j)
  from reaches_step.IH reaches_step.hyps(2) show ?case
    by (rule reaches.reaches_step)
qed

lemma drain_unfold_idle: "active s = [] \<Longrightarrow> drain outc s = s"
  by (subst drain.simps) simp

lemma drain_unfold_step: "active s \<noteq> [] \<Longrightarrow> drain outc s = drain outc (resume_at outc 0 s)"
  by (subst drain.simps) simp

lemma drain_reaches: "reaches outc s (drain outc s)"
proof (induction outc s rule: drain.induct)
  case (1 outc s)
  show ?case
  proof (cases "active s = []")
    case True
    then show ?thesis by (simp add: drain_unfold_idle reaches_refl)
  next
    case False
    then have "reaches outc (resume_at outc 0 s) (drain outc (resume_at outc 0 s))"
      by (rule "1.IH")
    moreover have "0 < length (active s)" using False by simp
    ultimately have "reaches outc s (drain outc (resume_at outc 0 s))"
      by (rule reaches_trans_step)
    then show ?thesis using False by (simp add: drain_unfold_step)
  qed
qed

lemma drain_settled: "active (drain outc s) = []"
proof (induction outc s rule: drain.induct)
  case (1 outc s)
  show ?case
  proof (cases "active s = []")
    case True
    then show ?thesis by (simp add: drain_unfold_idle)
  next
    case False
    then have "active (drain outc (resume_at outc 0 s)) = []"
      by (rule "1.IH")
    then show ?thesis using False by (simp add: drain_unfold_step)
  qed
qed

section \<open>Verified properties: the export-finished event of one worker\<close>

lemma finish_filter_unfold:
  "filter P (tagged tid (fst (finish_worker out w))) =
     filter P (tagged tid (fst (resume out w))) @
     (case snd (resume out w) of
        Awaiting w' \<Rightarrow> filter P (tagged tid (fst (finish_worker out w')))
      | _ \<Rightarrow> [])"
  by (subst finish_worker_unfold) (simp add: tagged_def split: continuation.splits)

lemma tagged_Nil: "tagged tid [] = []"
  by (simp add: tagged_def)

lemma filter_finish_events:
  "filter is_logExportFinish (tagged tid (finish_events st w)) =
     (if isLast (options w) then [(tid, logExportFinish (exportId (options w)))] else [])"
  by (simp add: finish_events_def tagged_def is_logExportFinish_def)

lemma filter_catch_block:
  "filter is_logExportFinish (tagged tid (fst (catch_block error w))) = []"
  by (simp add: catch_block_def tagged_def is_logExportFinish_def)

lemma snd_catch_block: "snd (catch_block error w) = Awaiting (w\<lparr>pc := await_error_update\<rparr>)"
  by (simp add: catch_block_def)

lemma stage_error_update:
  assumes "pc w = await_error_update"
  shows "filter is_logExportFinish (tagged tid (fst (finish_worker out w))) =
     (if isLast (options w) \<and> \<not> isl (res_updateTableExportProgress out status_error)
      then [(tid, logExportFinish (exportId (options w)))] else [])"
  by (subst finish_filter_unfold)
    (simp add: resume_def assms filter_finish_events tagged_Nil split: sum.splits)

lemma stage_caught:
  "filter is_logExportFinish (tagged tid (fst (catch_block error w))) @
   (case snd (catch_block error w) of
      Awaiting w' \<Rightarrow> filter is_logExportFinish (tagged tid (fst (finish_worker out w')))
    | _ \<Rightarrow> []) =
   (if isLast (options w) \<and> \<not> isl (res_updateTableExportProgress out status_error)
    then [(tid, logExportFinish (exportId (options w)))] else [])"
  by (simp add: filter_catch_block snd_catch_block stage_error_update)

lemma stage_finalize:
  assumes "pc w = await_finalize"
  shows "filter is_logExportFinish (tagged tid (fst (finish_worker out w))) =
     (if isLast (options w) \<and>
         \<not> (first_rejection (order_finalize out)
               [rejection (res_logFileExportInIndexSheet out),
                rejection (res_addFilePermissions out),
                rejection (res_updateTableExportProgress out status_success)] \<noteq> None \<and>
            isl (res_updateTableExportProgress out status_error))
      then [(tid, logExportFinish (exportId (options w)))] else [])"
proof (cases "first_rejection (order_finalize out)
               [rejection (res_logFileExportInIndexSheet out),
                rejection (res_addFilePermissions out),
                rejection (res_updateTableExportProgress out status_success)]")
  case None
  then have "resume out w = (finish_events status_success w, Resolved)"
    by (simp add: resume_def assms)
  then show ?thesis
    using None by (subst finish_filter_unfold) (simp add: filter_finish_events)
next
  case (Some error)
  then have "resume out w = catch_block error w"
    by (simp add: resume_def assms)
  then show ?thesis
    using Some by (subst finish_filter_unfold) (simp add: stage_caught)
qed

lemma stage_upload_and_styles:
  assumes "pc w = await_upload_and_styles"
  shows "filter is_logExportFinish (tagged tid (fst (finish_worker out w))) =
     (if isLast (options w) \<and>
         \<not> ((isl (Promise_all2 (order_upload_styles out)
                    (res_uploadToDrive out) (res_getFusiontableStyles out)) \<or>
              first_rejection (order_finalize out)
               [rejection (res_logFileExportInIndexSheet out),
                rejection (res_addFilePermissions out),
                rejection (res_updateTableExportProgress out status_success)] \<noteq> None) \<and>
            isl (res_updateTableExportProgress out status_error))
      then [(tid, logExportFinish (exportId (options w)))] else [])"
proof (cases "Promise_all2 (order_upload_styles out)
                (res_uploadToDrive out) (res_getFusiontableStyles out)")
  case (Inl error)
  then have "resume out w = catch_block error w"
    by (simp add: resume_def assms)
  then show ?thesis
    using Inl by (subst finish_filter_unfold) (simp add: stage_caught)
next
  case (Inr both)
  obtain uploaded sts where both: "both = (uploaded, sts)" by (cases both)
  let ?w1 = "w\<lparr>pc := await_finalize, driveFile := Some uploaded, styles := sts\<rparr>"
  have "snd (resume out w) = Awaiting ?w1"
    and "filter is_logExportFinish (tagged tid (fst (resume out w))) = []"
    using Inr both by (simp_all add: resume_def assms Let_def tagged_def is_logExportFinish_def)
  then show ?thesis
    using Inr by (subst finish_filter_unfold) (simp add: stage_finalize)
qed

lemma stage_getCsv:
  assumes "pc w = await_getCsv"
  shows "filter is_logExportFinish (tagged tid (fst (finish_worker out w))) =
     (if isLast (options w) \<and> \<not> worker_rejects out
      then [(tid, logExportFinish (exportId (options w)))] else [])"
proof (cases "res_getCsv out")
  case (Inl error)
  then have "resume out w = catch_block error w"
    by (simp add: resume_def assms)
  then show ?thesis
    using Inl
    by (subst finish_filter_unfold) (simp add: stage_caught worker_rejects_def enters_catch_def)
next
  case (Inr csv)
  let ?size = "fileSize_of (csv_byteLength csv)"
  let ?w1 = "w\<lparr>pc := await_upload_and_styles, fileSize := ?size,
               roundedFileSize := roundedFileSize_of ?size, isLarge := isLarge_of ?size,
               hasGeometryData :=
                 (case csv_hasGeometryData csv of Some b \<Rightarrow> b | None \<Rightarrow> False)\<rparr>"
  have "snd (resume out w) = Awaiting ?w1"
    and "filter is_logExportFinish (tagged tid (fst (resume out w))) = []"
    using Inr by (simp_all add: resume_def assms Let_def tagged_def is_logExportFinish_def)
  then show ?thesis
    using Inr
    by (subst finish_filter_unfold)
      (simp add: stage_upload_and_styles worker_rejects_def enters_catch_def)
qed

lemma job_finish_events:
  "filter is_logExportFinish (tagged tid (job_events out j)) =
     (if isLast j \<and> \<not> worker_rejects out then [(tid, logExportFinish (exportId j))] else [])"
proof -
  have "filter is_logExportFinish (tagged tid (fst (start j :: 'a event list \<times> 'a worker))) = []"
    by (simp add: start_def tagged_def is_logExportFinish_def)
  moreover have "pc (snd (start j :: 'a event list \<times> 'a worker)) = await_getCsv"
    by (simp add: start_def)
  ultimately show ?thesis
    by (simp add: job_events_def tagged_append stage_getCsv start_options)
qed

section \<open>Verified properties: the export-finished event of a run\<close>

lemma count_refined:
  assumes "\<And>x. P x \<Longrightarrow> Q x"
  shows "count_in P xs = count_in P (filter Q xs)"
proof -
  have "filter P (filter Q xs) = filter P xs"
    using assms by (induction xs) auto
  then show ?thesis by (simp add: count_in_def)
qed

lemma job_count:
  assumes "\<And>x. P x \<Longrightarrow> is_logExportFinish x"
  shows "count_in P (tagged tid (job_events out j)) =
     (if isLast j \<and> \<not> worker_rejects out \<and> P (tid, logExportFinish (exportId j))
      then 1 else 0)"
proof -
  have "count_in P (tagged tid (job_events out j)) =
      count_in P (filter is_logExportFinish (tagged tid (job_events out j)))"
    using assms by (rule count_refined)
  also have "\<dots> = count_in P
      (if isLast j \<and> \<not> worker_rejects out then [(tid, logExportFinish (exportId j))] else [])"
    by (simp only: job_finish_events)
  also have "\<dots> = (if isLast j \<and> \<not> worker_rejects out \<and> P (tid, logExportFinish (exportId j))
      then 1 else 0)"
    by (simp add: count_in_def)
  finally show ?thesis .
qed

lemma job_not_last:
  assumes "(i, t) \<in> set (enumerate 0 ts)" and "do_tables opts = ts @ [t']"
  shows "\<not> isLast (job opts folder sheet (i, t))"
proof -
  have "i < length ts" using assms(1) by (simp add: in_set_enumerate_eq)
  then show ?thesis using assms(2) by (simp add: job_def)
qed

lemma jobs_count:
  assumes "\<And>x. P x \<Longrightarrow> is_logExportFinish x"
  shows "sum_list (map (\<lambda>j. count_in P (tagged (tableId j) (job_events (outc (tableId j)) j)))
            (map (job opts folder sheet) (enumerate 0 (do_tables opts)))) =
     (if do_tables opts \<noteq> [] \<and> \<not> worker_rejects (outc (length (do_tables opts))) \<and>
         P (length (do_tables opts), logExportFinish (do_exportId opts))
      then 1 else 0)"
proof (cases "do_tables opts" rule: rev_cases)
  case Nil
  then show ?thesis by simp
next
  case (snoc ts t)
  let ?g = "\<lambda>j. count_in P (tagged (tableId j) (job_events (outc (tableId j)) j))"
  have earlier: "sum_list (map ?g (map (job opts folder sheet) (enumerate 0 ts))) = 0"
  proof -
    have "?g (job opts folder sheet x) = 0" if "x \<in> set (enumerate 0 ts)" for x
    proof -
      obtain i t' where x: "x = (i, t')" by (cases x)
      then have "\<not> isLast (job opts folder sheet x)"
        using that snoc job_not_last by blast
      then show ?thesis by (simp add: job_count [OF assms])
    qed
    then show ?thesis by (simp add: sum_list_map_eq_sum_count o_def)
  qed
  have last: "job opts folder sheet (length ts, t) =
      \<lparr>tableId = length ts + 1, table = t, ipHash = do_ipHash opts, folderId = folder,
       archiveSheet = sheet, exportId = do_exportId opts, isLast = True\<rparr>"
    using snoc by (simp add: job_def)
  have "enumerate 0 (do_tables opts) = enumerate 0 ts @ [(length ts, t)]"
    using snoc by (simp add: enumerate_append_eq)
  then have "sum_list (map ?g (map (job opts folder sheet) (enumerate 0 (do_tables opts)))) =
      ?g (job opts folder sheet (length ts, t))"
    using earlier by simp
  then show ?thesis
    using snoc by (simp add: last job_count [OF assms])
qed

lemma initial_potential:
  assumes "\<And>x. P x \<Longrightarrow> is_logExportFinish x"
  shows "potential P outc (initial opts) = 0"
proof -
  have "\<not> is_logExportFinish (0, logExportStart (do_exportId opts) (length (do_tables opts)))"
    by (simp add: is_logExportFinish_def)
  then have "\<not> P (0, logExportStart (do_exportId opts) (length (do_tables opts)))"
    using assms by blast
  then show ?thesis
    by (simp add: potential_def ahead_def initial_def count_in_def)
qed

lemma dispatched_potential:
  assumes "\<And>x. P x \<Longrightarrow> is_logExportFinish x"
  shows "potential P outc
           (dispatch c (map (job opts folder sheet) (enumerate 0 (do_tables opts))) (initial opts)) =
     (if do_tables opts \<noteq> [] \<and> \<not> worker_rejects (outc (length (do_tables opts))) \<and>
         P (length (do_tables opts), logExportFinish (do_exportId opts))
      then 1 else 0)"
  by (simp only: potential_dispatch initial_potential [OF assms] jobs_count [OF assms])

lemma filter_from_counts:
  assumes "count_in (\<lambda>x. Q x \<and> x \<noteq> a) xs = 0"
  shows "filter Q xs = replicate (count_in Q xs) a"
  using assms
proof (induction xs)
  case Nil
  then show ?case by (simp add: count_in_def)
next
  case (Cons x xs)
  then show ?case by (auto simp: count_in_def split: if_splits)
qed

lemma initial_busy: "busy (initial opts)"
  by (simp add: busy_def initial_def)

text \<open>
  The export-finished events of a run, for a limiter of any degree and thus for any order in
  which the workers complete.
\<close>

lemma export_finished_any_degree:
  assumes "0 < c"
    and "reaches outc
           (dispatch c (map (job opts folder sheet) (enumerate 0 (do_tables opts))) (initial opts)) s"
  shows "filter is_logExportFinish (trace s) = [] \<or>
         filter is_logExportFinish (trace s) =
           [(length (do_tables opts), logExportFinish (do_exportId opts))]"
    and "active s = [] \<Longrightarrow>
         filter is_logExportFinish (trace s) =
           (if do_tables opts \<noteq> [] \<and> \<not> worker_rejects (outc (length (do_tables opts)))
            then [(length (do_tables opts), logExportFinish (do_exportId opts))] else [])"
proof -
  let ?s0 = "dispatch c (map (job opts folder sheet) (enumerate 0 (do_tables opts))) (initial opts)"
  let ?a = "(length (do_tables opts), logExportFinish (do_exportId opts))"
  let ?other = "\<lambda>x. is_logExportFinish x \<and> x \<noteq> ?a"
  have "potential ?other outc ?s0 = 0"
    by (subst dispatched_potential) simp_all
  then have other: "potential ?other outc s = 0"
    using potential_reaches [OF assms(2), where P = ?other] by simp
  have "potential is_logExportFinish outc ?s0 =
      (if do_tables opts \<noteq> [] \<and> \<not> worker_rejects (outc (length (do_tables opts))) then 1 else 0)"
    by (subst dispatched_potential) (simp_all add: is_logExportFinish_def)
  then have all: "potential is_logExportFinish outc s =
      (if do_tables opts \<noteq> [] \<and> \<not> worker_rejects (outc (length (do_tables opts))) then 1 else 0)"
    using potential_reaches [OF assms(2), where P = is_logExportFinish] by simp
  have "count_in ?other (trace s) = 0"
    using other count_le_potential [of ?other s outc] by simp
  then have shape: "filter is_logExportFinish (trace s) =
      replicate (count_in is_logExportFinish (trace s)) ?a"
    by (rule filter_from_counts)
  have "count_in is_logExportFinish (trace s) \<le> 1"
    using all count_le_potential [of is_logExportFinish s outc] by (simp split: if_splits)
  then have "count_in is_logExportFinish (trace s) = 0 \<or> count_in is_logExportFinish (trace s) = 1"
    by linarith
  then show "filter is_logExportFinish (trace s) = [] \<or> filter is_logExportFinish (trace s) = [?a]"
    using shape by auto
  show "filter is_logExportFinish (trace s) =
      (if do_tables opts \<noteq> [] \<and> \<not> worker_rejects (outc (length (do_tables opts)))
       then [?a] else [])" if idle: "active s = []"
  proof -
    have "busy s"
      using assms(2) by (rule busy_reaches) (simp add: busy_dispatch assms(1) initial_busy)
    then have "queue s = []" using idle by (simp add: busy_def)
    then have "count_in is_logExportFinish (trace s) = potential is_logExportFinish outc s"
      using idle by (simp add: potential_at_end)
    then show ?thesis using shape all by simp
  qed
qed

section \<open>Verified properties: the orchestrator\<close>

lemma map_filter_empty_iff:
  "List.map_filter f xs = [] \<longleftrightarrow> (\<forall>x \<in> set xs. f x = None)"
  by (induction xs) (auto simp: List.map_filter_simps split: option.splits)

lemma map_filter_member:
  "e \<in> set (List.map_filter f xs) \<Longrightarrow> \<exists>x \<in> set xs. f x = Some e"
  by (induction xs) (auto simp: List.map_filter_simps split: option.splits)

lemma first_rejection_None:
  "first_rejection order rs = None \<longleftrightarrow> (\<forall>r \<in> set rs. r = None)"
proof -
  let ?f = "\<lambda>i. if i < length rs then rs ! i else None"
  have "first_rejection order rs = None \<longleftrightarrow>
      List.map_filter ?f (order @ [0..<length rs]) = []"
    by (simp add: first_rejection_def split: list.splits)
  also have "\<dots> \<longleftrightarrow> (\<forall>i \<in> set (order @ [0..<length rs]). ?f i = None)"
    by (rule map_filter_empty_iff)
  also have "\<dots> \<longleftrightarrow> (\<forall>i < length rs. rs ! i = None)"
  proof
    assume a: "\<forall>i \<in> set (order @ [0..<length rs]). ?f i = None"
    show "\<forall>i < length rs. rs ! i = None"
    proof (intro allI impI)
      fix i assume "i < length rs"
      then have "i \<in> set (order @ [0..<length rs])" by simp
      with a have "?f i = None" by blast
      with \<open>i < length rs\<close> show "rs ! i = None" by simp
    qed
  next
    assume "\<forall>i < length rs. rs ! i = None"
    then show "\<forall>i \<in> set (order @ [0..<length rs]). ?f i = None" by simp
  qed
  also have "\<dots> \<longleftrightarrow> (\<forall>r \<in> set rs. r = None)"
    by (metis in_set_conv_nth)
  finally show ?thesis .
qed

lemma first_rejection_Some:
  assumes "first_rejection order rs = Some e"
  shows "Some e \<in> set rs"
proof -
  let ?f = "\<lambda>i. if i < length rs then rs ! i else None"
  from assms obtain rest where "List.map_filter ?f (order @ [0..<length rs]) = e # rest"
    by (auto simp: first_rejection_def split: list.splits)
  then have "e \<in> set (List.map_filter ?f (order @ [0..<length rs]))"
    by simp
  then have "\<exists>i \<in> set (order @ [0..<length rs]). ?f i = Some e"
    by (rule map_filter_member)
  then obtain i where i: "?f i = Some e" by blast
  then have "i < length rs" by (simp split: if_splits)
  moreover from this i have "rs ! i = Some e" by simp
  ultimately show ?thesis by (metis nth_mem)
qed

lemma Promise_all2_Inl:
  assumes "Promise_all2 order a b = Inl e"
  shows "a = Inl e \<or> b = Inl e"
proof -
  from assms have "first_rejection order [rejection a, rejection b] = Some e"
    by (simp add: Promise_all2_def split: option.splits)
  then have "Some e \<in> set [rejection a, rejection b]"
    by (rule first_rejection_Some)
  then show ?thesis
    by (auto simp: rejection_def split: sum.splits)
qed

lemma Promise_all2_Inr:
  assumes "Promise_all2 order a b = Inr (x, y)"
  shows "a = Inr x \<and> b = Inr y"
proof -
  from assms have none: "first_rejection order [rejection a, rejection b] = None"
    and xy: "x = projr a" "y = projr b"
    by (simp_all add: Promise_all2_def split: option.splits)
  from none have "rejection a = None" "rejection b = None"
    by (simp_all add: first_rejection_None)
  then show ?thesis
    using xy by (auto simp: rejection_def split: sum.splits)
qed

lemma doExport_success:
  assumes "doExport cfg su opts = (Inr folder, s0)"
  shows "\<exists>sheet. s0 =
     dispatch 1 (map (job opts folder sheet) (enumerate 0 (do_tables opts))) (initial opts)"
  using assms by (auto simp: doExport_def split: sum.splits prod.splits)

lemma initial_is_final:
  assumes "reaches outc (initial opts) s"
  shows "s = initial opts"
  using assms by (induction rule: reaches.induct) (simp_all add: initial_def)

lemma reachable_one_active:
  assumes "reaches outc (snd (doExport cfg su opts)) s"
  shows "length (active s) \<le> 1"
  using assms doExport_active by (rule active_reaches)

lemma ids_run_job: "ids (run_job j s) = ids s @ [tableId j]"
  by (simp add: ids_def run_job_def start_def)

lemma callers_run_job: "callers (run_job j s) = insert (tableId j) (callers s)"
  by (simp add: callers_def run_job_def start_def tagged_def)

lemma queue_run_job: "queue (run_job j s) = queue s"
  by (simp add: run_job_def)

lemma orderly_run_job:
  assumes "orderly s" and "tableId j \<notin> set (ids s)"
  shows "orderly (run_job j s)"
proof -
  have "tableId j \<notin> set (map tableId (queue s))"
    using assms(2) by (simp add: ids_def)
  then show ?thesis
    using assms by (simp add: orderly_def ids_run_job callers_run_job queue_run_job)
qed

lemma orderly_enqueue:
  assumes "orderly s" and "tableId j \<notin> set (ids s)" and "tableId j \<notin> callers s"
  shows "orderly (enqueue c j s)"
proof (cases "length (active s) < c")
  case True
  then show ?thesis
    using assms(1,2) by (simp add: enqueue_def orderly_run_job)
next
  case False
  then show ?thesis
    using assms by (auto simp: enqueue_def orderly_def ids_def callers_def)
qed

lemma ids_enqueue: "set (ids (enqueue c j s)) = insert (tableId j) (set (ids s))"
proof (cases "length (active s) < c")
  case True
  then show ?thesis by (simp add: enqueue_def ids_run_job)
next
  case False
  then show ?thesis by (auto simp: enqueue_def ids_def)
qed

lemma callers_enqueue: "callers (enqueue c j s) \<subseteq> insert (tableId j) (callers s)"
proof (cases "length (active s) < c")
  case True
  then show ?thesis by (simp add: enqueue_def callers_run_job)
next
  case False
  then show ?thesis by (auto simp: enqueue_def callers_def)
qed

lemma orderly_dispatch:
  assumes "orderly s" and "distinct (map tableId jobs)"
    and "\<forall>j \<in> set jobs. tableId j \<notin> set (ids s) \<and> tableId j \<notin> callers s"
  shows "orderly (dispatch c jobs s)"
  using assms unfolding dispatch_def
proof (induction jobs arbitrary: s)
  case Nil
  then show ?case by simp
next
  case (Cons j jobs)
  have first: "orderly (enqueue c j s)"
    using Cons.prems by (simp add: orderly_enqueue)
  have fresh: "\<forall>k \<in> set jobs.
      tableId k \<notin> set (ids (enqueue c j s)) \<and> tableId k \<notin> callers (enqueue c j s)"
  proof
    fix k assume k: "k \<in> set jobs"
    then have "tableId k \<in> set (map tableId jobs)"
      by simp
    moreover have "tableId j \<notin> set (map tableId jobs)"
      using Cons.prems(2) by simp
    ultimately have "tableId k \<noteq> tableId j"
      by metis
    moreover have "tableId k \<notin> set (ids s)" "tableId k \<notin> callers s"
      using Cons.prems(3) k by simp_all
    ultimately show "tableId k \<notin> set (ids (enqueue c j s)) \<and>
        tableId k \<notin> callers (enqueue c j s)"
      using callers_enqueue [of c j s] by (auto simp: ids_enqueue)
  qed
  have rest: "distinct (map tableId jobs)"
    using Cons.prems(2) by simp
  have "orderly (fold (enqueue c) jobs (enqueue c j s))"
    using first rest fresh by (rule Cons.IH)
  then show ?case by simp
qed

lemma orderly_next_job:
  assumes "orderly s"
  shows "orderly (next_job s)"
proof (cases "queue s")
  case Nil
  then show ?thesis using assms by (simp add: next_job_def)
next
  case (Cons j rest)
  have "orderly (s\<lparr>queue := rest\<rparr>)"
    using assms Cons by (auto simp: orderly_def ids_def callers_def)
  moreover have "tableId j \<notin> set (ids (s\<lparr>queue := rest\<rparr>))"
    using assms Cons by (auto simp: orderly_def ids_def)
  ultimately have "orderly (run_job j (s\<lparr>queue := rest\<rparr>))"
    by (rule orderly_run_job)
  then show ?thesis using Cons by (simp add: next_job_def)
qed

lemma distinct_without:
  "distinct (qs @ xs @ y # ys) \<Longrightarrow> distinct (qs @ xs @ ys)"
  by (induction qs) auto

lemma orderly_resume_at:
  assumes "i < length (active s)" and "orderly s"
  shows "orderly (resume_at outc i s)"
proof -
  let ?w = "active s ! i"
  let ?tid = "tableId (options ?w)"
  let ?f = "\<lambda>w. tableId (options w)"
  let ?r = "resume (outc ?tid) ?w"
  let ?tr = "trace s @ tagged ?tid (fst ?r)"
  from assms(2) have distinct: "distinct (ids s)"
    and quiet: "set (map tableId (queue s)) \<inter> callers s = {}"
    by (simp_all add: orderly_def)
  have split: "active s = take i (active s) @ ?w # drop (Suc i) (active s)"
    using assms(1) by (rule id_take_nth_drop)
  have parts: "map ?f (active s) =
      map ?f (take i (active s)) @ ?tid # map ?f (drop (Suc i) (active s))"
    by (subst split) simp
  have whole: "distinct (map tableId (queue s) @
      map ?f (take i (active s)) @ ?tid # map ?f (drop (Suc i) (active s)))"
    using distinct by (simp only: ids_def parts)
  then have not_queued: "?tid \<notin> set (map tableId (queue s))"
    by auto
  have "fst ` set (tagged ?tid (fst ?r)) \<subseteq> {?tid}"
    by (auto simp: tagged_def)
  then have more: "fst ` set ?tr \<subseteq> insert ?tid (callers s)"
    by (auto simp: callers_def)
  have "set (map tableId (queue s)) \<inter> insert ?tid (callers s) = {}"
    using quiet not_queued by simp
  then have quiet': "set (map tableId (queue s)) \<inter> fst ` set ?tr = {}"
    using more by blast
  let ?rm = "s\<lparr>trace := ?tr, active := take i (active s) @ drop (Suc i) (active s)\<rparr>"
  have "distinct (map tableId (queue s) @
      map ?f (take i (active s)) @ map ?f (drop (Suc i) (active s)))"
    using whole by (rule distinct_without)
  then have removed: "distinct (ids ?rm)"
    by (simp add: ids_def)
  have rm: "orderly ?rm"
    using removed quiet' by (simp add: orderly_def callers_def)
  show ?thesis
  proof (cases "snd ?r")
    case (Awaiting w')
    then have "?r = (fst ?r, Awaiting w')" by (simp add: prod_eq_iff)
    then have same: "options w' = options ?w" by (rule resume_options)
    have "(active s)[i := w'] = take i (active s) @ w' # drop (Suc i) (active s)"
      using assms(1) by (rule upd_conv_take_nth_drop)
    then have "map ?f ((active s)[i := w']) = map ?f (active s)"
      using same by (simp add: parts)
    then have "ids (s\<lparr>trace := ?tr, active := (active s)[i := w']\<rparr>) = ids s"
      by (simp add: ids_def)
    then have "orderly (s\<lparr>trace := ?tr, active := (active s)[i := w']\<rparr>)"
      using distinct quiet' by (simp add: orderly_def callers_def)
    then show ?thesis using Awaiting by (simp add: resume_at_def Let_def)
  next
    case Resolved
    then show ?thesis using rm by (simp add: resume_at_def Let_def orderly_next_job)
  next
    case (Rejected e)
    then show ?thesis using rm by (simp add: resume_at_def Let_def orderly_next_job)
  qed
qed

lemma orderly_reaches: "reaches outc s t \<Longrightarrow> orderly s \<Longrightarrow> orderly t"
  by (induction rule: reaches.induct) (simp_all add: orderly_resume_at)

lemma job_ids: "map tableId (map (job opts folder sheet) (enumerate 0 ts)) = [1..<Suc (length ts)]"
proof -
  have "map tableId (map (job opts folder sheet) (enumerate n ts)) = [Suc n..<Suc (n + length ts)]"
    for n
  proof (induction ts arbitrary: n)
    case Nil
    then show ?case by simp
  next
    case (Cons t ts)
    have "[Suc n..<Suc (n + length (t # ts))] = Suc n # [Suc (Suc n)..<Suc (Suc n + length ts)]"
      by (simp add: upt_rec)
    then show ?case using Cons [of "Suc n"] by (simp add: job_def)
  qed
  from this [of 0] show ?thesis by simp
qed

lemma orderly_initial: "orderly (initial opts)"
  by (simp add: orderly_def ids_def initial_def)

lemma orderly_doExport:
  "orderly (snd (doExport cfg su opts :: (js_error + string) \<times> 'style sched))"
proof -
  let ?s0 = "snd (doExport cfg su opts :: (js_error + string) \<times> 'style sched)"
  have "?s0 = initial opts \<or>
      (\<exists>folder sheet. ?s0 =
         dispatch 1 (map (job opts folder sheet) (enumerate 0 (do_tables opts))) (initial opts))"
    by (rule doExport_state)
  then show ?thesis
  proof
    assume "?s0 = initial opts"
    then show ?thesis by (simp add: orderly_initial)
  next
    assume "\<exists>folder sheet. ?s0 =
      dispatch 1 (map (job opts folder sheet) (enumerate 0 (do_tables opts))) (initial opts)"
    then obtain folder sheet where s0: "?s0 =
      dispatch 1 (map (job opts folder sheet) (enumerate 0 (do_tables opts))) (initial opts)"
      by blast
    let ?jobs = "map (job opts folder sheet) (enumerate 0 (do_tables opts))"
    have idl: "map tableId ?jobs = [1..<Suc (length (do_tables opts))]"
      by (rule job_ids)
    then have d: "distinct (map tableId ?jobs)" by simp
    have pos: "0 < tableId j" if "j \<in> set ?jobs" for j
    proof -
      from that have "tableId j \<in> tableId ` set ?jobs" by (rule imageI)
      then have "tableId j \<in> set (map tableId ?jobs)" by (simp only: set_map)
      then have "tableId j \<in> set [1..<Suc (length (do_tables opts))]" by (simp only: idl)
      then show ?thesis by (simp only: set_upt atLeastLessThan_iff) linarith
    qed
    have fresh: "\<forall>j \<in> set ?jobs. tableId j \<notin> set (ids (initial opts :: 'style sched)) \<and>
        tableId j \<notin> callers (initial opts :: 'style sched)"
      using pos by (auto simp: ids_def callers_def initial_def)
    have "orderly (dispatch 1 ?jobs (initial opts :: 'style sched))"
      using orderly_initial d fresh by (rule orderly_dispatch)
    then show ?thesis by (simp only: s0)
  qed
qed

lemma export_two_eq:
  "export_two =
     (Inr ''folder'',
      dispatch 1 (map (job (export_of [tableA, tableB]) ''folder'' sheet0)
                    (enumerate 0 [tableA, tableB]))
        (initial (export_of [tableA, tableB])))"
  by (simp add: export_two_def doExport_def prep_with_def env_ok_def env_with_def cfg0_def
      getArchiveIndexSheet_def getFirstSheet_def getFirstSheet_attempt_def
      getFirstSheetWorker_def getFirstSheetWorker_try_def response_with_id_def no_calls_def
      Promise_all2_def first_rejection_def rejection_def List.map_filter_simps export_of_def
      sheet0_def numeral_2_eq_2 upt_rec)

lemma export_two_state:
  "snd export_two =
     \<lparr>queue = [\<lparr>tableId = 2, table = tableB, ipHash = ''ip'', folderId = ''folder'',
                archiveSheet = sheet0, exportId = ''e1'', isLast = True\<rparr>],
      active = [\<lparr>options = \<lparr>tableId = 1, table = tableA, ipHash = ''ip'',
                            folderId = ''folder'', archiveSheet = sheet0, exportId = ''e1'',
                            isLast = False\<rparr>,
                 pc = await_getCsv, fileSize = Number 0, roundedFileSize = Number 0,
                 isLarge = False, hasGeometryData = False, driveFile = None, styles = []\<rparr>],
      trace = [(0, logExportStart ''e1'' 2), (1, logTableStart ''e1'' 1), (1, getCsv tableA)]\<rparr>"
  by (simp add: export_two_eq dispatch_def enqueue_def run_job_def start_def job_def
      initial_def export_of_def tagged_def)

lemma export_none_eq:
  "export_none =
     (Inr ''folder'', \<lparr>queue = [], active = [], trace = [(0, logExportStart ''e1'' 0)]\<rparr>)"
  by (simp add: export_none_def doExport_def prep_with_def env_ok_def env_with_def cfg0_def
      getArchiveIndexSheet_def getFirstSheet_def getFirstSheet_attempt_def
      getFirstSheetWorker_def getFirstSheetWorker_try_def response_with_id_def no_calls_def
      Promise_all2_def first_rejection_def rejection_def List.map_filter_simps export_of_def
      sheet0_def numeral_2_eq_2 upt_rec dispatch_def initial_def)

text \<open>
  Claim C7. If the upload folder, the index sheet or the export-began row fails (the archive
  folder being resolved), \<^verbatim>\<open>doExport\<close> rejects with the error of a step that failed, and
  dispatches no worker: nothing is queued or started, the only call recorded is the
  export-started log event, so no worker call and no write to the progress store is made,
  and the run has no further state.
\<close>

theorem failed_preparation_dispatches_nothing:
  fixes outc :: "nat \<Rightarrow> 'style outcome" and s0 :: "'style sched"
  assumes "doExport cfg su opts = (result, s0)"
    and "res_getArchiveFolder su = Inr archiveFolderId"
    and "isl (res_getDriveUploadFolder su archiveFolderId) \<or>
         isl (fst (getArchiveIndexSheet cfg (sheets_env su) archiveFolderId no_calls)) \<or>
         isl (res_insertExportRowInIndexSheet su
                (projr (fst (getArchiveIndexSheet cfg (sheets_env su) archiveFolderId no_calls)))
                (projr (res_getDriveUploadFolder su archiveFolderId)))"
  shows "\<exists>e. result = Inl e \<and>
           (res_getDriveUploadFolder su archiveFolderId = Inl e \<or>
            fst (getArchiveIndexSheet cfg (sheets_env su) archiveFolderId no_calls) = Inl e \<or>
            res_insertExportRowInIndexSheet su
              (projr (fst (getArchiveIndexSheet cfg (sheets_env su) archiveFolderId no_calls)))
              (projr (res_getDriveUploadFolder su archiveFolderId)) = Inl e) \<and>
           queue s0 = [] \<and> active s0 = [] \<and>
           trace s0 = [(0, logExportStart (do_exportId opts) (length (do_tables opts)))] \<and>
           worker_events (trace s0) = [] \<and>
           (\<forall>s. reaches outc s0 s \<longrightarrow> s = s0)"
proof -
  let ?U = "res_getDriveUploadFolder su archiveFolderId"
  let ?S = "fst (getArchiveIndexSheet cfg (sheets_env su) archiveFolderId no_calls)"
  let ?I = "res_insertExportRowInIndexSheet su (projr ?S) (projr ?U)"
  have "\<exists>e. doExport cfg su opts = (Inl e, initial opts :: 'style sched) \<and>
      (?U = Inl e \<or> ?S = Inl e \<or> ?I = Inl e)"
  proof (cases "Promise_all2 (order_folder_sheet su) ?U ?S")
    case (Inl e)
    then have "?U = Inl e \<or> ?S = Inl e" by (rule Promise_all2_Inl)
    then have "?U = Inl e \<or> ?S = Inl e \<or> ?I = Inl e" by blast
    moreover have "doExport cfg su opts = (Inl e, initial opts :: 'style sched)"
      using Inl assms(2) by (simp add: doExport_def)
    ultimately show ?thesis by blast
  next
    case (Inr both)
    obtain folder sheet where both: "both = (folder, sheet)" by (cases both)
    have "Promise_all2 (order_folder_sheet su) ?U ?S = Inr (folder, sheet)"
      using Inr both by simp
    then have ok: "?U = Inr folder \<and> ?S = Inr sheet"
      by (rule Promise_all2_Inr)
    then have "isl (res_insertExportRowInIndexSheet su sheet folder)"
      using assms(3) by simp
    then obtain e where e: "res_insertExportRowInIndexSheet su sheet folder = Inl e"
      by (cases "res_insertExportRowInIndexSheet su sheet folder") simp_all
    have "doExport cfg su opts = (Inl e, initial opts :: 'style sched)"
      using Inr both assms(2) e by (simp add: doExport_def)
    moreover have "?I = Inl e" using ok e by simp
    ultimately show ?thesis by blast
  qed
  then obtain e where "doExport cfg su opts = (Inl e, initial opts :: 'style sched)"
    and cause: "?U = Inl e \<or> ?S = Inl e \<or> ?I = Inl e"
    by blast
  with assms(1) have res: "result = Inl e" and s0: "s0 = initial opts"
    by simp_all
  have q: "queue s0 = []" "active s0 = []"
    "trace s0 = [(0, logExportStart (do_exportId opts) (length (do_tables opts)))]"
    by (simp_all add: s0 initial_def)
  have w: "worker_events (trace s0) = []"
    by (simp add: s0 initial_def worker_events_def)
  have r: "\<forall>s. reaches outc s0 s \<longrightarrow> s = s0"
    unfolding s0 using initial_is_final by blast
  from res cause q w r show ?thesis
    by (intro exI [of _ e] conjI)
qed

theorem failed_preparation_witness:
  "export_404 =
     (Inl (PlainError (legacy_conflict_message cfg0)),
      \<lparr>queue = [], active = [], trace = [(0, logExportStart ''e1'' 2)]\<rparr>)"
proof -
  let ?su = "prep_with env_404"
  have sheet: "fst (getArchiveIndexSheet cfg0 (sheets_env ?su) ''archive'' no_calls) =
      Inl (PlainError (legacy_conflict_message cfg0))"
    by (simp add: getArchiveIndexSheet_def getFirstSheet_def getFirstSheet_attempt_def
        getFirstSheetWorker_def getFirstSheetWorker_try_def getFirstSheetWorker_catch_def
        prep_with_def env_404_def env_with_def cfg0_def no_calls_def numeral_2_eq_2)
  have folder: "res_getDriveUploadFolder ?su ''archive'' = Inr ''folder''"
    and archive: "res_getArchiveFolder ?su = Inr ''archive''"
    and row: "res_insertExportRowInIndexSheet ?su sh f = Inr ()" for sh f
    by (simp_all add: prep_with_def)
  have run: "doExport cfg0 ?su (export_of [tableA, tableB]) = (fst export_404, snd export_404)"
    by (simp add: export_404_def)
  have failing: "isl (res_getDriveUploadFolder ?su ''archive'') \<or>
      isl (fst (getArchiveIndexSheet cfg0 (sheets_env ?su) ''archive'' no_calls)) \<or>
      isl (res_insertExportRowInIndexSheet ?su
             (projr (fst (getArchiveIndexSheet cfg0 (sheets_env ?su) ''archive'' no_calls)))
             (projr (res_getDriveUploadFolder ?su ''archive'')))"
    by (simp add: sheet)
  from failed_preparation_dispatches_nothing [OF run archive failing, where outc = all_ok]
  obtain e where e: "fst export_404 = Inl e"
    and cause: "res_getDriveUploadFolder ?su ''archive'' = Inl e \<or>
      fst (getArchiveIndexSheet cfg0 (sheets_env ?su) ''archive'' no_calls) = Inl e \<or>
      res_insertExportRowInIndexSheet ?su
        (projr (fst (getArchiveIndexSheet cfg0 (sheets_env ?su) ''archive'' no_calls)))
        (projr (res_getDriveUploadFolder ?su ''archive'')) = Inl e"
    and state: "queue (snd export_404) = []" "active (snd export_404) = []"
      "trace (snd export_404) =
         [(0, logExportStart (do_exportId (export_of [tableA, tableB]))
                (length (do_tables (export_of [tableA, tableB]))))]"
    by blast
  from cause have "e = PlainError (legacy_conflict_message cfg0)"
    by (simp add: sheet folder row)
  with e have first: "fst export_404 = Inl (PlainError (legacy_conflict_message cfg0))"
    by simp
  have second: "snd export_404 =
      \<lparr>queue = [], active = [], trace = [(0, logExportStart ''e1'' 2)]\<rparr>"
    using state by (cases "snd export_404") (simp add: export_of_def)
  show ?thesis
    using first second by (simp add: prod_eq_iff)
qed

text \<open>
  Claim C2, as amended. The degree-1 limiter is applied to the whole worker of a table, not
  to its fetch step alone. In every state of every run at most one worker is started and
  not settled, and a table that still waits in the queue of the limiter has made no call at
  all: its fetch, like every later step of it, is held back until the promise of the
  running worker has settled.
\<close>

theorem limiter_serializes_whole_workers:
  assumes "reaches outc (snd (doExport cfg su opts)) s"
  shows "length (active s) \<le> 1 \<and>
         (\<forall>j \<in> set (queue s). \<forall>x \<in> set (trace s). fst x \<noteq> tableId j)"
proof -
  have "orderly s"
    using assms orderly_doExport by (rule orderly_reaches)
  then have "set (map tableId (queue s)) \<inter> fst ` set (trace s) = {}"
    by (simp add: orderly_def callers_def)
  then have "\<forall>j \<in> set (queue s). \<forall>x \<in> set (trace s). fst x \<noteq> tableId j"
    by auto
  then show ?thesis
    using reachable_one_active [OF assms] by simp
qed

theorem limiter_serializes_witness:
  "length (active (resume_at all_ok 0 (snd export_two))) \<le> 1
   \<and> map tableId (queue (resume_at all_ok 0 (snd export_two))) = [2]
   \<and> 2 \<notin> fst ` set (trace (resume_at all_ok 0 (snd export_two)))"
proof -
  let ?s = "resume_at all_ok 0 (snd export_two)"
  have "reaches all_ok (snd export_two) ?s"
    by (rule reaches_step [OF reaches_refl]) (simp add: export_two_state)
  then have "reaches all_ok
      (snd (doExport cfg0 (prep_with env_ok) (export_of [tableA, tableB]))) ?s"
    by (simp add: export_two_def)
  from limiter_serializes_whole_workers [OF this]
  have one: "length (active ?s) \<le> 1"
    and quiet: "\<forall>j \<in> set (queue ?s). \<forall>x \<in> set (trace ?s). fst x \<noteq> tableId j"
    by simp_all
  have q: "map tableId (queue ?s) = [2]"
    by (simp add: export_two_state resume_at_def resume_def all_ok_def outcome_ok_def Let_def)
  then obtain j where "queue ?s = [j]" and "tableId j = 2"
    by (cases "queue ?s") auto
  with quiet have "\<forall>x \<in> set (trace ?s). fst x \<noteq> 2"
    by simp
  then have "2 \<notin> fst ` set (trace ?s)"
    by auto
  with one q show ?thesis by simp
qed

text \<open>
  The claim as stated fails. In the export of the tables A and B, once the fetch of A has
  completed and A is being uploaded, the worker of B is still queued: the limiter holds
  back the fetch of B during the upload of A, and this is the only way the run can go on.
  No state of the run has two started workers.
\<close>

theorem limiter_overlap_counterexample:
  "map (\<lambda>w. (tableId (options w), pc w)) (active (resume_at all_ok 0 (snd export_two))) =
     [(1, await_upload_and_styles)]
   \<and> map tableId (queue (resume_at all_ok 0 (snd export_two))) = [2]
   \<and> successors all_ok (snd export_two) = [resume_at all_ok 0 (snd export_two)]
   \<and> \<not> (\<exists>s. reaches all_ok (snd export_two) s \<and> 1 < length (active s))"
proof -
  have "\<not> (\<exists>s. reaches all_ok (snd export_two) s \<and> 1 < length (active s))"
  proof
    assume "\<exists>s. reaches all_ok (snd export_two) s \<and> 1 < length (active s)"
    then obtain s where run: "reaches all_ok (snd export_two) s" and two: "1 < length (active s)"
      by blast
    from run have "reaches all_ok
        (snd (doExport cfg0 (prep_with env_ok) (export_of [tableA, tableB]))) s"
      by (simp add: export_two_def)
    then have "length (active s) \<le> 1"
      by (rule reachable_one_active)
    with two show False by simp
  qed
  moreover have "successors all_ok (snd export_two) = [resume_at all_ok 0 (snd export_two)]"
    by (simp add: successors_def export_two_state)
  moreover have "map (\<lambda>w. (tableId (options w), pc w))
      (active (resume_at all_ok 0 (snd export_two))) = [(1, await_upload_and_styles)]"
    and "map tableId (queue (resume_at all_ok 0 (snd export_two))) = [2]"
    by (simp_all add: export_two_state resume_at_def resume_def all_ok_def outcome_ok_def Let_def)
  ultimately show ?thesis by blast
qed

text \<open>
  Claim C1, as amended. For every export job whose preparation succeeds and whose table list
  is not empty, in every state of every run of its workers the export-finished event has
  been emitted at most once, and only by the worker of the table at the last position of
  the input list (the one with the \<^verbatim>\<open>isLast\<close> flag). When every worker has settled it has
  been emitted exactly once if the promise of that worker resolved, which is the case in
  its success outcome and in its error outcome with the error recorded in the progress
  store. Every run comes to that end.
\<close>

theorem export_finished_once_by_last_worker:
  assumes "doExport cfg su opts = (Inr folder, s0)"
    and "do_tables opts \<noteq> []"
    and "reaches outc s0 s"
  shows "(filter is_logExportFinish (trace s) = [] \<or>
          filter is_logExportFinish (trace s) =
            [(length (do_tables opts), logExportFinish (do_exportId opts))])
       \<and> (active s = [] \<longrightarrow>
            filter is_logExportFinish (trace s) =
              (if worker_rejects (outc (length (do_tables opts))) then []
               else [(length (do_tables opts), logExportFinish (do_exportId opts))]))
       \<and> reaches outc s0 (drain outc s0)
       \<and> active (drain outc s0) = []"
proof -
  from assms(1) obtain sheet where s0: "s0 =
      dispatch 1 (map (job opts folder sheet) (enumerate 0 (do_tables opts))) (initial opts)"
    using doExport_success by blast
  have run: "reaches outc
      (dispatch 1 (map (job opts folder sheet) (enumerate 0 (do_tables opts))) (initial opts)) s"
    using assms(3) s0 by simp
  have "0 < (1::nat)" by simp
  note facts = export_finished_any_degree [OF this run]
  show ?thesis
    using facts(1) facts(2) assms(2) drain_reaches [of outc s0] drain_settled [of outc s0]
    by auto
qed

theorem export_finished_witness:
  "filter is_logExportFinish (trace (drain all_ok (snd export_two))) =
     [(2, logExportFinish ''e1'')]
   \<and> filter is_logExportFinish (trace (drain last_failed (snd export_two))) =
     [(2, logExportFinish ''e1'')]"
proof -
  have ex: "doExport cfg0 (prep_with env_ok) (export_of [tableA, tableB]) =
      (Inr ''folder'', snd export_two)"
    using export_two_eq by (simp add: export_two_def)
  have tables: "do_tables (export_of [tableA, tableB]) \<noteq> []"
    by (simp add: export_of_def)
  have len: "length (do_tables (export_of [tableA, tableB])) = 2"
    and eid: "do_exportId (export_of [tableA, tableB]) = ''e1''"
    by (simp_all add: export_of_def)
  have ok: "\<not> worker_rejects (all_ok 2)" "\<not> worker_rejects (last_failed 2)"
    by (simp_all add: worker_rejects_def all_ok_def last_failed_def outcome_ok_def
        outcome_failed_def)
  have "filter is_logExportFinish (trace (drain outc (snd export_two))) =
      (if worker_rejects (outc 2) then [] else [(2, logExportFinish ''e1'')])" for outc
  proof -
    note th = export_finished_once_by_last_worker
      [OF ex tables drain_reaches [of outc "snd export_two"], unfolded len eid]
    from th have "active (drain outc (snd export_two)) = [] \<longrightarrow>
        filter is_logExportFinish (trace (drain outc (snd export_two))) =
          (if worker_rejects (outc 2) then [] else [(2, logExportFinish ''e1'')])"
      by (rule conjunct2 [THEN conjunct1])
    then show ?thesis
      using drain_settled [of outc "snd export_two"] by blast
  qed
  then show ?thesis using ok by simp
qed

text \<open>
  The claim as stated fails for an export of no table: the preparation succeeds, no worker
  is dispatched, the run is over at once, and the export-finished event is never emitted.
\<close>

theorem export_finished_counterexample:
  "export_none =
     (Inr ''folder'', \<lparr>queue = [], active = [], trace = [(0, logExportStart ''e1'' 0)]\<rparr>)
   \<and> successors all_ok (snd export_none) = []
   \<and> drain all_ok (snd export_none) = snd export_none
   \<and> filter is_logExportFinish (trace (drain all_ok (snd export_none))) = []"
  by (simp add: export_none_eq successors_def drain_unfold_idle is_logExportFinish_def)

end
